theory Spec2Isabelle
  imports Main
begin

section \<open>Constants of structs.h\<close>

definition BSEARCH_PROMPT_SIZE :: nat where
  "BSEARCH_PROMPT_SIZE = 15"

definition MAX_VIABLE_COUNT :: int where
  "MAX_VIABLE_COUNT = 8"

definition BUF_SIZE :: nat where
  "BUF_SIZE = 8"

section \<open>C integers\<close>

text \<open>
  A C \<open>int\<close> is modelled as an \<open>int\<close> whose value lies in the 32-bit two's complement
  range. The counters of the program (\<open>d\<close>, \<open>len\<close>, \<open>E\<close>, \<open>calc_fb_size\<close>) count
  command-line arguments and stay far below that range; they are modelled without
  wrap-around. The subtraction in \<open>cmpfunc\<close> takes any two \<open>int\<close>s; there the wrap-around
  is written out.
\<close>

definition c_int :: "int \<Rightarrow> bool" where
  "c_int x \<longleftrightarrow> - (2 ^ 31) \<le> x \<and> x < 2 ^ 31"

definition int32_wrap :: "int \<Rightarrow> int" where
  "int32_wrap x = (x + 2 ^ 31) mod 2 ^ 32 - 2 ^ 31"

text \<open>\<open>cmpfunc\<close> (fb_arc_set.c, line 41): the difference of the two pointees.\<close>

definition cmpfunc :: "int \<Rightarrow> int \<Rightarrow> int" where
  "cmpfunc a b = int32_wrap (a - b)"

text \<open>\<open>val_in_arr\<close> (fb_arc_set.c, line 46): a linear scan of the first \<open>size\<close> cells.\<close>

function val_in_arr_from :: "nat \<Rightarrow> int \<Rightarrow> int list \<Rightarrow> nat \<Rightarrow> bool" where
  "val_in_arr_from i val arr sz =
     (if i < sz then (if arr ! i = val then True else val_in_arr_from (i + 1) val arr sz)
      else False)"
  by pat_completeness auto
termination
  by (relation "measure (\<lambda>(i, val, arr, sz). sz - i)") auto

declare val_in_arr_from.simps [simp del]

definition val_in_arr :: "int \<Rightarrow> int list \<Rightarrow> nat \<Rightarrow> bool" where
  "val_in_arr val arr sz = val_in_arr_from 0 val arr sz"

section \<open>The C library's qsort and bsearch\<close>

text \<open>
  \<open>qsort\<close> and \<open>bsearch\<close> belong to the C library, not to the repository. \<open>qsort\<close> is
  modelled by an insertion sort that orders with the comparison function it is given,
  \<open>bsearch\<close> by the usual halving loop over a half-open index interval, which returns a
  match as soon as the comparison function answers 0. Both are called with \<open>cmpfunc\<close>.
\<close>

fun qsort_insert :: "int \<Rightarrow> int list \<Rightarrow> int list" where
  "qsort_insert x [] = [x]"
| "qsort_insert x (y # ys) = (if cmpfunc x y \<le> 0 then x # y # ys else y # qsort_insert x ys)"

fun qsort_list :: "int list \<Rightarrow> int list" where
  "qsort_list [] = []"
| "qsort_list (x # xs) = qsort_insert x (qsort_list xs)"

definition qsort :: "int list \<Rightarrow> nat \<Rightarrow> int list" where
  "qsort base nmemb = qsort_list (take nmemb base) @ drop nmemb base"

function bsearch_loop :: "int \<Rightarrow> int list \<Rightarrow> nat \<Rightarrow> nat \<Rightarrow> bool" where
  "bsearch_loop key base l u =
     (if l < u then
        (let idx = (l + u) div 2; c = cmpfunc key (base ! idx)
         in if c < 0 then bsearch_loop key base l idx
            else if c > 0 then bsearch_loop key base (idx + 1) u
            else True)
      else False)"
  by pat_completeness auto
termination
  by (relation "measure (\<lambda>(key, base, l, u). u - l)") auto

declare bsearch_loop.simps [simp del]

definition bsearch :: "int \<Rightarrow> int list \<Rightarrow> nat \<Rightarrow> bool" where
  "bsearch key base nmemb = bsearch_loop key base 0 nmemb"

section \<open>The directed graph\<close>

datatype error = AssertionFailed | ExitFailure

record successors =
  d :: nat
  len :: nat
  is_sorted :: bool
  list_s :: "int list"

record Graph =
  V :: int
  E :: int
  alist :: "successors list"

text \<open>
  \<open>list_s\<close> holds the cells \<open>list[0] .. list[d - 1]\<close> of the C array; \<open>len\<close> is the
  capacity the array was allocated with. Allocation itself (\<open>malloc\<close>, \<open>realloc\<close>) is
  taken to succeed.
\<close>

definition graph_create :: "int \<Rightarrow> Graph" where
  "graph_create n =
     \<lparr>V = n, E = 0,
      alist = replicate (nat n) \<lparr>d = 0, len = 1, is_sorted = True, list_s = []\<rparr>\<rparr>"

text \<open>
  The capacity loop of \<open>graph_add_edge\<close> (line 179): \<open>while (d >= len) len *= 2\<close>.
  With \<open>len = 0\<close> the doubling makes no progress and the loop never ends: \<open>None\<close>.
\<close>

function grow_len :: "nat \<Rightarrow> nat \<Rightarrow> nat option" where
  "grow_len dd l =
     (if dd \<ge> l then (if l = 0 then None else grow_len dd (l * 2)) else Some l)"
  by pat_completeness auto
termination
  by (relation "measure (\<lambda>(dd, l). dd + 1 - l)") auto

declare grow_len.simps [simp del]

definition graph_add_edge :: "Graph \<Rightarrow> int \<Rightarrow> int \<Rightarrow> (error + Graph) option" where
  "graph_add_edge g u v =
     (if \<not> u \<ge> 0 then Some (Inl AssertionFailed)
      else if \<not> u < V g then Some (Inl AssertionFailed)
      else if \<not> v \<ge> 0 then Some (Inl AssertionFailed)
      else if \<not> v < V g then Some (Inl AssertionFailed)
      else
        (let s = alist g ! nat u in
         case grow_len (d s) (len s) of
           None \<Rightarrow> None
         | Some l \<Rightarrow>
             Some (Inr (g\<lparr>alist := (alist g)[nat u :=
                           s\<lparr>len := l, list_s := take (d s) (list_s s) @ [v],
                             d := d s + 1, is_sorted := False\<rparr>],
                         E := E g + 1\<rparr>))))"

definition graph_vertex_count :: "Graph \<Rightarrow> int" where
  "graph_vertex_count g = V g"

definition graph_edge_count :: "Graph \<Rightarrow> int" where
  "graph_edge_count g = E g"

definition graph_out_degree :: "Graph \<Rightarrow> int \<Rightarrow> error + nat" where
  "graph_out_degree g source =
     (if \<not> source \<ge> 0 then Inl AssertionFailed
      else if \<not> source < V g then Inl AssertionFailed
      else Inr (d (alist g ! nat source)))"

text \<open>The linear scan of \<open>graph_has_edge\<close> (line 229).\<close>

function has_edge_linear :: "successors \<Rightarrow> nat \<Rightarrow> int \<Rightarrow> bool" where
  "has_edge_linear s i target =
     (if i < d s then (if list_s s ! i = target then True else has_edge_linear s (i + 1) target)
      else False)"
  by pat_completeness auto
termination
  by (relation "measure (\<lambda>(s, i, target). d s - i)") auto

declare has_edge_linear.simps [simp del]

text \<open>
  The sort-and-search branch of \<open>graph_has_edge\<close> (lines 219 to 221). It returns the
  successors after the call, whether \<open>qsort\<close> was called, and the answer.
\<close>

definition has_edge_bsearch :: "successors \<Rightarrow> int \<Rightarrow> successors \<times> bool \<times> bool" where
  "has_edge_bsearch s target =
     (let s' = (if \<not> is_sorted s then s\<lparr>list_s := qsort (list_s s) (d s)\<rparr> else s)
      in (s', \<not> is_sorted s, bsearch target (list_s s') (d s')))"

text \<open>
  \<open>graph_has_edge\<close> (line 209). The result is the graph after the call (the successor
  list may have been sorted in place), whether this call ran \<open>qsort\<close>, and the answer.
\<close>

definition graph_has_edge :: "Graph \<Rightarrow> int \<Rightarrow> int \<Rightarrow> error + (Graph \<times> bool \<times> bool)" where
  "graph_has_edge g source target =
     (case graph_out_degree g source of
        Inl e \<Rightarrow> Inl e
      | Inr deg \<Rightarrow>
          (let s = alist g ! nat source in
           if deg \<ge> BSEARCH_PROMPT_SIZE then
             (case has_edge_bsearch s target of
                (s', sorted_now, found) \<Rightarrow>
                  Inr (g\<lparr>alist := (alist g)[nat source := s']\<rparr>, sorted_now, found))
           else Inr (g, False, has_edge_linear s 0 target)))"


text \<open>
  The state in which the graph module keeps a successor list and a graph: \<open>d\<close> counts
  the cells in use, the capacity is positive, every successor is a vertex of the graph,
  and a list flagged as sorted is sorted. \<open>graph_create\<close> establishes it and
  \<open>graph_add_edge\<close> and \<open>graph_has_edge\<close> keep it.
\<close>

definition vertex_vals :: "int list \<Rightarrow> bool" where
  "vertex_vals xs \<longleftrightarrow> (\<forall>x\<in>set xs. 0 \<le> x \<and> x < 2 ^ 31)"

definition succ_inv :: "int \<Rightarrow> successors \<Rightarrow> bool" where
  "succ_inv n s \<longleftrightarrow>
     d s = length (list_s s) \<and> 0 < len s \<and> (\<forall>x\<in>set (list_s s). 0 \<le> x \<and> x < n) \<and>
     (is_sorted s \<longrightarrow> sorted (list_s s))"

definition graph_inv :: "Graph \<Rightarrow> bool" where
  "graph_inv g \<longleftrightarrow>
     0 \<le> V g \<and> V g < 2 ^ 31 \<and> length (alist g) = nat (V g) \<and>
     (\<forall>s\<in>set (alist g). succ_inv (V g) s)"

text \<open>The successors of a vertex, as a set: the edges the graph holds.\<close>

definition succs :: "Graph \<Rightarrow> int \<Rightarrow> int set" where
  "succs g u = set (list_s (alist g ! nat u))"

section \<open>The generator: building the graph\<close>

text \<open>
  \<open>main\<close> of generator.c, lines 122 to 187. Each command-line argument has passed
  \<open>assert_edge_format\<close> and enters as the pair of labels that \<open>src_from_arg\<close> and
  \<open>trgt_from_arg\<close> read from it. \<open>max_set\<close> is the list of its first \<open>k\<close> cells, so
  \<open>k\<close> is its length.
\<close>

fun collect_vertices :: "(int \<times> int) list \<Rightarrow> int list \<Rightarrow> int list" where
  "collect_vertices [] max_set = max_set"
| "collect_vertices ((a, b) # args) max_set =
     (let m1 = (if \<not> val_in_arr a max_set (length max_set) then max_set @ [a] else max_set);
          m2 = (if \<not> val_in_arr b m1 (length m1) then m1 @ [b] else m1)
      in collect_vertices args m2)"

fun add_edges :: "Graph \<Rightarrow> (int \<times> int) list \<Rightarrow> (error + Graph) option" where
  "add_edges g [] = Some (Inr g)"
| "add_edges g ((a, b) # args) =
     (case graph_add_edge g a b of
        None \<Rightarrow> None
      | Some (Inl e) \<Rightarrow> Some (Inl e)
      | Some (Inr g') \<Rightarrow> add_edges g' args)"

text \<open>
  The result is the vertex set and the graph with which the search loop starts, an
  assertion failure, or the exit of \<open>usage\<close> when there is no argument.
\<close>

definition generator_graph :: "(int \<times> int) list \<Rightarrow> (error + (int list \<times> Graph)) option" where
  "generator_graph args =
     (if args = [] then Some (Inl ExitFailure)
      else
        (let vertex_set = collect_vertices args [];
             num_v = int (length vertex_set);
             num_e = int (length args);
             g = graph_create num_v
         in if graph_vertex_count g \<noteq> num_v then Some (Inl AssertionFailed)
            else if graph_edge_count g \<noteq> 0 then Some (Inl AssertionFailed)
            else
              (case add_edges g args of
                 None \<Rightarrow> None
               | Some (Inl e) \<Rightarrow> Some (Inl e)
               | Some (Inr g') \<Rightarrow>
                   if graph_edge_count g' \<noteq> num_e then Some (Inl AssertionFailed)
                   else Some (Inr (vertex_set, g')))))"

text \<open>The labels that occur in the arguments.\<close>

definition labels :: "(int \<times> int) list \<Rightarrow> int set" where
  "labels args = fst ` set args \<union> snd ` set args"

section \<open>The generator: scanning one ordering\<close>

record Edge =
  src :: int
  trgt :: int

text \<open>
  The inner loop of lines 226 to 235. \<open>edge_set\<close> is the list of the cells written so far
  in this iteration, so the write at \<open>edge_set_i\<close> appends.
\<close>

function scan_row ::
  "Graph \<Rightarrow> int list \<Rightarrow> nat \<Rightarrow> nat \<Rightarrow> Edge list \<Rightarrow> int \<Rightarrow> error + (Graph \<times> Edge list \<times> int)"
where
  "scan_row g vertex_set i j edge_set calc_fb_size =
     (if j < i then
        (case graph_has_edge g (vertex_set ! i) (vertex_set ! j) of
           Inl e \<Rightarrow> Inl e
         | Inr (g', sorted_now, found) \<Rightarrow>
             if found then
               scan_row g' vertex_set i (j + 1)
                 (edge_set @ [\<lparr>src = vertex_set ! i, trgt = vertex_set ! j\<rparr>]) (calc_fb_size + 1)
             else scan_row g' vertex_set i (j + 1) edge_set calc_fb_size)
      else Inr (g, edge_set, calc_fb_size))"
  by pat_completeness auto
termination
  by (relation "measure (\<lambda>(g, vertex_set, i, j, edge_set, calc_fb_size). i - j)") auto

declare scan_row.simps [simp del]

text \<open>
  The outer loop of lines 224 to 245, with the check that stops the scan once the count
  has reached \<open>best_fb_size\<close>. The last component of the result is \<open>better_sol_ex\<close>.
\<close>

function scan_rows ::
  "Graph \<Rightarrow> int list \<Rightarrow> nat \<Rightarrow> nat \<Rightarrow> Edge list \<Rightarrow> int \<Rightarrow> int
     \<Rightarrow> error + (Graph \<times> Edge list \<times> int \<times> bool)"
where
  "scan_rows g vertex_set num_v i edge_set calc_fb_size best =
     (if i < num_v then
        (case scan_row g vertex_set i 0 edge_set calc_fb_size of
           Inl e \<Rightarrow> Inl e
         | Inr (g', edge_set', calc') \<Rightarrow>
             if calc' \<ge> best then Inr (g', edge_set', calc', True)
             else scan_rows g' vertex_set num_v (i + 1) edge_set' calc' best)
      else Inr (g, edge_set, calc_fb_size, False))"
  by pat_completeness auto
termination
  by (relation "measure (\<lambda>(g, vertex_set, num_v, i, edge_set, calc_fb_size, best). num_v - i)") auto

declare scan_rows.simps [simp del]

definition pair_scan ::
  "Graph \<Rightarrow> int list \<Rightarrow> int \<Rightarrow> error + (Graph \<times> Edge list \<times> int \<times> bool)" where
  "pair_scan g vertex_set best = scan_rows g vertex_set (length vertex_set) 1 [] 0 best"

text \<open>The test of line 257 that lets a candidate into the publication block.\<close>

definition improves :: "int \<Rightarrow> int \<Rightarrow> bool" where
  "improves best fb_size \<longleftrightarrow> best > fb_size \<and> fb_size \<le> MAX_VIABLE_COUNT"

text \<open>
  What the loop body decides for one ordering: an ordering whose scan was stopped is
  skipped (lines 246 to 250), any other is measured by the test of line 257.
\<close>

definition scan_decision :: "Graph \<Rightarrow> int list \<Rightarrow> int \<Rightarrow> error + bool" where
  "scan_decision g vertex_set best =
     (case pair_scan g vertex_set best of
        Inl e \<Rightarrow> Inl e
      | Inr (g', edge_set, calc, better_sol_ex) \<Rightarrow>
          Inr (if better_sol_ex then False else improves best calc))"

text \<open>
  The scan as the specification describes it without the pruning: every pair is
  visited, and the full count is compared with the local best afterwards.
\<close>

function exhaustive_rows ::
  "Graph \<Rightarrow> int list \<Rightarrow> nat \<Rightarrow> nat \<Rightarrow> Edge list \<Rightarrow> int \<Rightarrow> error + (Graph \<times> Edge list \<times> int)"
where
  "exhaustive_rows g vertex_set num_v i edge_set calc_fb_size =
     (if i < num_v then
        (case scan_row g vertex_set i 0 edge_set calc_fb_size of
           Inl e \<Rightarrow> Inl e
         | Inr (g', edge_set', calc') \<Rightarrow> exhaustive_rows g' vertex_set num_v (i + 1) edge_set' calc')
      else Inr (g, edge_set, calc_fb_size))"
  by pat_completeness auto
termination
  by (relation "measure (\<lambda>(g, vertex_set, num_v, i, edge_set, calc_fb_size). num_v - i)") auto

declare exhaustive_rows.simps [simp del]

definition exhaustive_decision :: "Graph \<Rightarrow> int list \<Rightarrow> int \<Rightarrow> error + bool" where
  "exhaustive_decision g vertex_set best =
     (case exhaustive_rows g vertex_set (length vertex_set) 1 [] 0 of
        Inl e \<Rightarrow> Inl e
      | Inr (g', edge_set, k) \<Rightarrow> Inr (improves best k))"

section \<open>Back-edges of an ordering\<close>

text \<open>
  The vertices of an ordering are vertices of the graph; the generator's vertex set is
  made of the labels it has added edges for, so it satisfies this.
\<close>

definition vertices_of :: "Graph \<Rightarrow> int list \<Rightarrow> bool" where
  "vertices_of g vs \<longleftrightarrow> (\<forall>x\<in>set vs. 0 \<le> x \<and> x < V g)"

text \<open>
  The back-edges of row \<open>i\<close> from column \<open>j\<close> on, and of all rows from row \<open>i\<close> on, in
  the order in which the scan meets them.
\<close>

definition row_edges :: "Graph \<Rightarrow> int list \<Rightarrow> nat \<Rightarrow> nat \<Rightarrow> Edge list" where
  "row_edges g vs i j =
     map (\<lambda>k. \<lparr>src = vs ! i, trgt = vs ! k\<rparr>) (filter (\<lambda>k. vs ! k \<in> succs g (vs ! i)) [j..<i])"

definition rows_edges :: "Graph \<Rightarrow> int list \<Rightarrow> nat \<Rightarrow> nat \<Rightarrow> Edge list" where
  "rows_edges g vs n i = concat (map (\<lambda>r. row_edges g vs r 0) [i..<n])"

text \<open>An edge of the graph that is left when the edges of \<open>edge_set\<close> are removed.\<close>

definition residual_edge :: "Graph \<Rightarrow> Edge list \<Rightarrow> int \<Rightarrow> int \<Rightarrow> bool" where
  "residual_edge g edge_set u v \<longleftrightarrow> v \<in> succs g u \<and> \<lparr>src = u, trgt = v\<rparr> \<notin> set edge_set"

section \<open>Example inputs\<close>

text \<open>
  The arguments \<open>0-n ... 0-2 0-1\<close>, and the graph the generator builds from them: vertex 0
  has \<open>n\<close> successors in an array of capacity \<open>cap\<close>.
\<close>

definition star_args :: "nat \<Rightarrow> (int \<times> int) list" where
  "star_args n = map (\<lambda>k. (0, int k)) (rev [1..<Suc n])"

definition star_graph :: "nat \<Rightarrow> nat \<Rightarrow> Graph" where
  "star_graph n cap =
     \<lparr>V = int n + 1, E = int n,
      alist = \<lparr>d = n, len = cap, is_sorted = False, list_s = map int (rev [1..<Suc n])\<rparr> #
              replicate n \<lparr>d = 0, len = 1, is_sorted = True, list_s = []\<rparr>\<rparr>"

text \<open>The same graph once the successors of vertex 0 have been sorted in place.\<close>

definition star_graph_sorted :: "nat \<Rightarrow> nat \<Rightarrow> Graph" where
  "star_graph_sorted n cap =
     \<lparr>V = int n + 1, E = int n,
      alist = \<lparr>d = n, len = cap, is_sorted = False, list_s = map int [1..<Suc n]\<rparr> #
              replicate n \<lparr>d = 0, len = 1, is_sorted = True, list_s = []\<rparr>\<rparr>"

text \<open>The cycle \<open>0-1 1-2 2-0\<close> as the generator builds it.\<close>

definition cycle3 :: Graph where
  "cycle3 =
     \<lparr>V = 3, E = 3,
      alist = [\<lparr>d = 1, len = 1, is_sorted = False, list_s = [1]\<rparr>,
               \<lparr>d = 1, len = 1, is_sorted = False, list_s = [2]\<rparr>,
               \<lparr>d = 1, len = 1, is_sorted = False, list_s = [0]\<rparr>]\<rparr>"

section \<open>Semaphore calls\<close>

text \<open>
  \<open>sem_wait\<close>, \<open>sem_post\<close> and \<open>sem_getvalue\<close> are the operating system's. A call returns
  0, or -1 with \<open>errno\<close> set; a \<open>sem_wait\<close> that has to block returns 0 once it has
  decremented the semaphore. The model of a process takes the replies to its successive
  semaphore calls as a function of the call's number, and counts the calls it issues.
\<close>

datatype errno = EINTR | EINVAL | EAGAIN | EOVERFLOW

datatype sem_ret = Sem_ok | Sem_failed errno

datatype 'a run = Return 'a | Exit int

definition EXIT_FAILURE :: int where
  "EXIT_FAILURE = 1"

text \<open>\<open>wait_sem\<close> (fb_arc_set.c, line 270).\<close>

definition wait_sem :: "(nat \<Rightarrow> sem_ret) \<Rightarrow> nat \<Rightarrow> unit run \<times> nat" where
  "wait_sem os n =
     (case os n of
        Sem_ok \<Rightarrow> (Return (), n + 1)
      | Sem_failed e \<Rightarrow> if e = EINTR then (Return (), n + 1) else (Exit EXIT_FAILURE, n + 1))"

text \<open>\<open>post_sem\<close> (fb_arc_set.c, line 281).\<close>

definition post_sem :: "(nat \<Rightarrow> sem_ret) \<Rightarrow> nat \<Rightarrow> unit run \<times> nat" where
  "post_sem os n =
     (case os n of
        Sem_ok \<Rightarrow> (Return (), n + 1)
      | Sem_failed e \<Rightarrow> (Exit EXIT_FAILURE, n + 1))"

text \<open>\<open>getval_sem\<close> (fb_arc_set.c, line 261); the value it reads is not used.\<close>

definition getval_sem :: "(nat \<Rightarrow> sem_ret) \<Rightarrow> nat \<Rightarrow> unit run \<times> nat" where
  "getval_sem os n =
     (case os n of
        Sem_ok \<Rightarrow> (Return (), n + 1)
      | Sem_failed e \<Rightarrow> (Exit EXIT_FAILURE, n + 1))"

text \<open>
  Among the calls numbered \<open>n\<close> up to \<open>n' - 1\<close>, one succeeded: the semaphore has been
  decremented.
\<close>

definition acquired :: "(nat \<Rightarrow> sem_ret) \<Rightarrow> nat \<Rightarrow> nat \<Rightarrow> bool" where
  "acquired os n n' \<longleftrightarrow> (\<exists>k\<in>{n..<n'}. os k = Sem_ok)"

text \<open>Replies: every call succeeds; the first call is interrupted and every later one succeeds.\<close>

definition all_ok :: "nat \<Rightarrow> sem_ret" where
  "all_ok k = Sem_ok"

definition eintr_then_ok :: "nat \<Rightarrow> sem_ret" where
  "eintr_then_ok k = (if k = 0 then Sem_failed EINTR else Sem_ok)"

section \<open>The shared ring buffer\<close>

record Fb_arc_set =
  written :: bool
  num_e :: int
  edges :: "Edge list"

record Buffer =
  acyclic :: bool
  quit :: int
  best_fb_size :: int
  sets :: "Fb_arc_set list"

text \<open>
  The variables of a generator process that the loop carries: its own \<open>quit\<close>, its local
  \<open>best_fb_size\<close> and its write cursor. Those of the supervisor: its own \<open>quit\<close> and its
  read cursor.
\<close>

record generator =
  gen_quit :: int
  gen_best_fb_size :: int
  write_at :: nat

record supervisor =
  sup_quit :: int
  read_from :: nat

text \<open>\<open>signal_handler\<close> of generator.c (line 73) and of supervisor.c (line 71).\<close>

definition generator_signal_handler :: "generator \<Rightarrow> Buffer \<Rightarrow> generator \<times> Buffer" where
  "generator_signal_handler st ring_buf = (st\<lparr>gen_quit := 1\<rparr>, ring_buf)"

definition supervisor_signal_handler :: "supervisor \<Rightarrow> Buffer \<Rightarrow> supervisor \<times> Buffer" where
  "supervisor_signal_handler st ring_buf = (st\<lparr>sup_quit := 1\<rparr>, ring_buf\<lparr>quit := 1\<rparr>)"

text \<open>The loop conditions (generator.c, line 215; supervisor.c, line 149).\<close>

definition generator_runs :: "generator \<Rightarrow> Buffer \<Rightarrow> bool" where
  "generator_runs st ring_buf \<longleftrightarrow> gen_quit st \<noteq> 1 \<and> acyclic ring_buf \<noteq> True \<and> quit ring_buf \<noteq> 1"

definition supervisor_runs :: "supervisor \<Rightarrow> bool" where
  "supervisor_runs st \<longleftrightarrow> sup_quit st \<noteq> 1"

text \<open>
  The payload of lines 270 to 293: zeroed, then the first \<open>best\<close> edges of \<open>edge_set\<close>,
  marked as written.
\<close>

definition make_fb_arc_set :: "Edge list \<Rightarrow> int \<Rightarrow> Fb_arc_set" where
  "make_fb_arc_set edge_set best =
     \<lparr>written = True, num_e = best,
      edges = map (\<lambda>i. if int i < best then edge_set ! i else \<lparr>src = 0, trgt = 0\<rparr>)
                [0..<nat MAX_VIABLE_COUNT]\<rparr>"

text \<open>
  The cursor loops (generator.c, line 306; supervisor.c, line 162). They never end when no
  slot is in the state they look for: \<open>None\<close>.
\<close>

partial_function (option) find_unwritten :: "Fb_arc_set list \<Rightarrow> nat \<Rightarrow> nat option" where
  "find_unwritten slots w =
     (if written (slots ! w) = True then find_unwritten slots ((w + 1) mod BUF_SIZE) else Some w)"

partial_function (option) find_written :: "Fb_arc_set list \<Rightarrow> nat \<Rightarrow> nat option" where
  "find_written slots r =
     (if written (slots ! r) = False then find_written slots ((r + 1) mod BUF_SIZE) else Some r)"

declare find_unwritten.simps [code]

declare find_written.simps [code]

section \<open>The generator: publishing a candidate\<close>

text \<open>
  Lines 252 to 326 of generator.c, for a scan that ran to its end with \<open>fb_size\<close>
  back-edges in \<open>edge_set\<close>. The result is the process after the step (returned to the
  loop, or exited), the ring buffer, and the number of semaphore calls issued so far.
  The step works on the ring buffer as it finds it; what another process writes is a
  step of that process. The line printed to standard output at line 259 is left out.
\<close>

definition generator_publish ::
  "(nat \<Rightarrow> sem_ret) \<Rightarrow> nat \<Rightarrow> generator \<Rightarrow> Buffer \<Rightarrow> int \<Rightarrow> Edge list
     \<Rightarrow> (generator run \<times> Buffer \<times> nat) option" where
  "generator_publish os n st ring_buf fb_size edge_set =
     (if gen_best_fb_size st > fb_size \<and> fb_size \<le> MAX_VIABLE_COUNT then
        if fb_size > best_fb_size ring_buf then
          Some (Return (st\<lparr>gen_best_fb_size := best_fb_size ring_buf\<rparr>), ring_buf, n)
        else
          (let st1 = st\<lparr>gen_best_fb_size := fb_size\<rparr>;
               fb_arc_set = make_fb_arc_set edge_set (gen_best_fb_size st1)
           in case wait_sem os n of
                (Exit c, n1) \<Rightarrow> Some (Exit c, ring_buf, n1)
              | (Return u1, n1) \<Rightarrow>
           (case wait_sem os n1 of
                (Exit c, n2) \<Rightarrow> Some (Exit c, ring_buf, n2)
              | (Return u2, n2) \<Rightarrow>
           (case find_unwritten (sets ring_buf) (write_at st1) of
                None \<Rightarrow> None
              | Some w \<Rightarrow>
           (let ring_buf1 = ring_buf\<lparr>sets := (sets ring_buf)[w := fb_arc_set]\<rparr> in
            case post_sem os n2 of
                (Exit c, n3) \<Rightarrow> Some (Exit c, ring_buf1, n3)
              | (Return u3, n3) \<Rightarrow>
           (let st2 = st1\<lparr>write_at := (w + 1) mod BUF_SIZE\<rparr> in
            case post_sem os n3 of
                (Exit c, n4) \<Rightarrow> Some (Exit c, ring_buf1, n4)
              | (Return u4, n4) \<Rightarrow>
                if fb_size = 0 \<and> best_fb_size ring_buf1 = 0 then
                  (case generator_signal_handler st2 ring_buf1 of
                     (st3, ring_buf2) \<Rightarrow> Some (Return st3, ring_buf2, n4))
                else Some (Return st2, ring_buf1, n4))))))
      else Some (Return st, ring_buf, n))"

section \<open>The supervisor\<close>

definition INT16_MAX :: int where
  "INT16_MAX = 32767"

text \<open>Line 147 of supervisor.c, before the loop.\<close>

definition supervisor_init :: "Buffer \<Rightarrow> Buffer" where
  "supervisor_init ring_buf = ring_buf\<lparr>best_fb_size := INT16_MAX\<rparr>"

text \<open>
  What the supervisor writes to standard output: the line that the graph is acyclic, or
  \<open>print_solution\<close> with a size and the first \<open>size\<close> edges (the sizes generators publish
  do not exceed the eight edges a slot holds).
\<close>

datatype stdout_line = Acyclic_line | Solution_line int "Edge list"

definition print_solution :: "Edge list \<Rightarrow> int \<Rightarrow> stdout_line" where
  "print_solution edge_set sz = Solution_line sz (take (nat sz) edge_set)"

text \<open>One iteration of the loop of supervisor.c, lines 151 to 190.\<close>

definition supervisor_iteration ::
  "(nat \<Rightarrow> sem_ret) \<Rightarrow> nat \<Rightarrow> supervisor \<Rightarrow> Buffer
     \<Rightarrow> (supervisor run \<times> Buffer \<times> stdout_line list \<times> nat) option" where
  "supervisor_iteration os n st ring_buf =
     (case getval_sem os n of
        (Exit c, n1) \<Rightarrow> Some (Exit c, ring_buf, [], n1)
      | (Return u1, n1) \<Rightarrow>
     (case getval_sem os n1 of
        (Exit c, n2) \<Rightarrow> Some (Exit c, ring_buf, [], n2)
      | (Return u2, n2) \<Rightarrow>
     (case wait_sem os n2 of
        (Exit c, n3) \<Rightarrow> Some (Exit c, ring_buf, [], n3)
      | (Return u3, n3) \<Rightarrow>
     (case find_written (sets ring_buf) (read_from st) of
        None \<Rightarrow> None
      | Some r \<Rightarrow>
     (let fb_arc_set = sets ring_buf ! r;
          ring_buf1 = ring_buf\<lparr>sets := (sets ring_buf)[r := (sets ring_buf ! r)\<lparr>written := False\<rparr>]\<rparr>
      in case post_sem os n3 of
           (Exit c, n4) \<Rightarrow> Some (Exit c, ring_buf1, [], n4)
         | (Return u4, n4) \<Rightarrow>
     (let st1 = st\<lparr>read_from := (r + 1) mod BUF_SIZE\<rparr> in
      if num_e fb_arc_set = 0 then
        (case supervisor_signal_handler st1 (ring_buf1\<lparr>acyclic := True\<rparr>) of
           (st2, ring_buf2) \<Rightarrow> Some (Return st2, ring_buf2, [Acyclic_line], n4))
      else if num_e fb_arc_set < best_fb_size ring_buf1 then
        Some (Return st1, ring_buf1\<lparr>best_fb_size := num_e fb_arc_set\<rparr>,
              [print_solution (edges fb_arc_set) (num_e fb_arc_set)], n4)
      else Some (Return st1, ring_buf1, [], n4)))))))"

text \<open>
  A step of some process on the shared ring buffer: an iteration of the supervisor, or
  a generator's publication step.
\<close>

inductive shared_step :: "Buffer \<Rightarrow> Buffer \<Rightarrow> bool" where
  consumer: "supervisor_iteration os n st ring_buf = Some (r, ring_buf', out, n')
     \<Longrightarrow> shared_step ring_buf ring_buf'"
| producer: "generator_publish os n gst ring_buf fb_size edge_set = Some (gr, ring_buf', n')
     \<Longrightarrow> shared_step ring_buf ring_buf'"

text \<open>A ring buffer with eight free slots, and the initial variables of the processes.\<close>

definition empty_buffer :: "int \<Rightarrow> Buffer" where
  "empty_buffer best =
     \<lparr>acyclic = False, quit = 0, best_fb_size = best,
      sets = replicate BUF_SIZE \<lparr>written = False, num_e = 0, edges = replicate 8 \<lparr>src = 0, trgt = 0\<rparr>\<rparr>\<rparr>"

definition generator_start :: "int \<Rightarrow> generator" where
  "generator_start best = \<lparr>gen_quit = 0, gen_best_fb_size = best, write_at = 0\<rparr>"

definition supervisor_start :: supervisor where
  "supervisor_start = \<lparr>sup_quit = 0, read_from = 0\<rparr>"

text \<open>
  The ring buffer after the supervisor's initialisation, after a generator has then
  published the candidate \<open>2-0\<close>, and after the supervisor has then drained it.
\<close>

definition initial_buffer :: Buffer where
  "initial_buffer = supervisor_init (empty_buffer 0)"

definition published_buffer :: Buffer where
  "published_buffer =
     initial_buffer\<lparr>sets := (sets initial_buffer)[0 := make_fb_arc_set [\<lparr>src = 2, trgt = 0\<rparr>] 1]\<rparr>"

definition drained_buffer :: Buffer where
  "drained_buffer =
     published_buffer\<lparr>sets := (sets published_buffer)
                        [0 := (sets published_buffer ! 0)\<lparr>written := False\<rparr>],
                      best_fb_size := 1\<rparr>"

text \<open>
  The ring buffer after the supervisor's initialisation and a generator's publication of a
  candidate without edges, and the same once the supervisor has drained that candidate.
\<close>

definition acyclic_published_buffer :: Buffer where
  "acyclic_published_buffer =
     initial_buffer\<lparr>sets := (sets initial_buffer)[0 := make_fb_arc_set [] 0]\<rparr>"

definition acyclic_drained_buffer :: Buffer where
  "acyclic_drained_buffer =
     acyclic_published_buffer\<lparr>sets := (sets acyclic_published_buffer)
                                 [0 := (sets acyclic_published_buffer ! 0)\<lparr>written := False\<rparr>],
                               acyclic := True, quit := 1\<rparr>"

section \<open>The shared memory object\<close>

text \<open>
  The sizes and alignments of the three scalar types of structs.h are the compiler's.
  They are parameters of the model.
\<close>

record abi =
  bool_size :: nat
  bool_align :: nat
  int_size :: nat
  int_align :: nat
  sig_atomic_size :: nat
  sig_atomic_align :: nat

definition abi_ok :: "abi \<Rightarrow> bool" where
  "abi_ok a \<longleftrightarrow>
     0 < bool_size a \<and> 0 < bool_align a \<and> 0 < int_size a \<and> 0 < int_align a \<and>
     0 < sig_atomic_size a \<and> 0 < sig_atomic_align a"

text \<open>The usual ABI of a POSIX system: one byte for \<open>bool\<close>, four for \<open>int\<close> and \<open>sig_atomic_t\<close>.\<close>

definition posix_abi :: abi where
  "posix_abi = \<lparr>bool_size = 1, bool_align = 1, int_size = 4, int_align = 4,
                 sig_atomic_size = 4, sig_atomic_align = 4\<rparr>"

text \<open>The next offset at or after \<open>off\<close> that is a multiple of \<open>al\<close>.\<close>

definition align_up :: "nat \<Rightarrow> nat \<Rightarrow> nat" where
  "align_up al off = ((off + al - 1) div al) * al"

text \<open>
  The structures of structs.h, members in the order of their declaration, each at the next
  offset of its alignment, the size rounded up to the alignment of the structure.
\<close>

definition offsetof_trgt :: "abi \<Rightarrow> nat" where
  "offsetof_trgt a = align_up (int_align a) (int_size a)"

definition sizeof_Edge :: "abi \<Rightarrow> nat" where
  "sizeof_Edge a = align_up (int_align a) (offsetof_trgt a + int_size a)"

definition alignof_Fb_arc_set :: "abi \<Rightarrow> nat" where
  "alignof_Fb_arc_set a = max (bool_align a) (int_align a)"

definition offsetof_num_e :: "abi \<Rightarrow> nat" where
  "offsetof_num_e a = align_up (int_align a) (bool_size a)"

definition offsetof_edges :: "abi \<Rightarrow> nat" where
  "offsetof_edges a = align_up (int_align a) (offsetof_num_e a + int_size a)"

definition sizeof_Fb_arc_set :: "abi \<Rightarrow> nat" where
  "sizeof_Fb_arc_set a =
     align_up (alignof_Fb_arc_set a) (offsetof_edges a + nat MAX_VIABLE_COUNT * sizeof_Edge a)"

definition alignof_Buffer :: "abi \<Rightarrow> nat" where
  "alignof_Buffer a = max (bool_align a) (max (sig_atomic_align a) (alignof_Fb_arc_set a))"

definition offsetof_quit :: "abi \<Rightarrow> nat" where
  "offsetof_quit a = align_up (sig_atomic_align a) (bool_size a)"

definition offsetof_best_fb_size :: "abi \<Rightarrow> nat" where
  "offsetof_best_fb_size a = align_up (int_align a) (offsetof_quit a + sig_atomic_size a)"

definition offsetof_sets :: "abi \<Rightarrow> nat" where
  "offsetof_sets a = align_up (alignof_Fb_arc_set a) (offsetof_best_fb_size a + int_size a)"

definition sizeof_Buffer :: "abi \<Rightarrow> nat" where
  "sizeof_Buffer a =
     align_up (alignof_Buffer a) (offsetof_sets a + BUF_SIZE * sizeof_Fb_arc_set a)"

text \<open>
  The system calls behind \<open>create_shm\<close>, \<open>truncate_shm\<close> and \<open>open_shm\<close> succeed or fail.
  A shared memory object is its size in bytes, and a file descriptor stands for the
  object it refers to; \<open>shm_open\<close> with \<open>O_CREAT\<close> opens the object of that name or
  creates an empty one, and \<open>ftruncate\<close> gives the object the size asked for.
\<close>

datatype sys_ret = Sys_ok | Sys_failed

definition create_shm :: "sys_ret \<Rightarrow> nat option \<Rightarrow> nat run" where
  "create_shm r named =
     (case r of
        Sys_failed \<Rightarrow> Exit EXIT_FAILURE
      | Sys_ok \<Rightarrow> (case named of None \<Rightarrow> Return 0 | Some sz \<Rightarrow> Return sz))"

definition truncate_shm :: "sys_ret \<Rightarrow> nat \<Rightarrow> nat \<Rightarrow> nat run" where
  "truncate_shm r shm_fd shm_size =
     (case r of Sys_failed \<Rightarrow> Exit EXIT_FAILURE | Sys_ok \<Rightarrow> Return shm_size)"

text \<open>\<open>open_shm\<close> maps \<open>shm_size\<close> bytes from offset 0; the result is the length of the mapping.\<close>

definition open_shm :: "sys_ret \<Rightarrow> nat \<Rightarrow> nat \<Rightarrow> nat run" where
  "open_shm r shm_fd shm_size =
     (case r of Sys_failed \<Rightarrow> Exit EXIT_FAILURE | Sys_ok \<Rightarrow> Return shm_size)"

text \<open>
  Lines 128 to 130 of supervisor.c and lines 205 to 206 of generator.c. The result is the
  size of the shared memory object and the length of the process's mapping of it.
\<close>

definition supervisor_shm ::
  "abi \<Rightarrow> sys_ret \<Rightarrow> sys_ret \<Rightarrow> sys_ret \<Rightarrow> nat option \<Rightarrow> (nat \<times> nat) run" where
  "supervisor_shm a r1 r2 r3 named =
     (case create_shm r1 named of
        Exit c \<Rightarrow> Exit c
      | Return shm_buf_fd \<Rightarrow>
          (case truncate_shm r2 shm_buf_fd BUF_SIZE of
             Exit c \<Rightarrow> Exit c
           | Return obj \<Rightarrow>
               (case open_shm r3 obj (sizeof_Buffer a) of
                  Exit c \<Rightarrow> Exit c
                | Return mapped \<Rightarrow> Return (obj, mapped))))"

definition generator_shm ::
  "abi \<Rightarrow> sys_ret \<Rightarrow> sys_ret \<Rightarrow> nat option \<Rightarrow> (nat \<times> nat) run" where
  "generator_shm a r1 r2 named =
     (case create_shm r1 named of
        Exit c \<Rightarrow> Exit c
      | Return shm_buf_fd \<Rightarrow>
          (case open_shm r2 shm_buf_fd (sizeof_Buffer a) of
             Exit c \<Rightarrow> Exit c
           | Return mapped \<Rightarrow> Return (shm_buf_fd, mapped)))"

section \<open>Properties of the comparison, the sort and the search\<close>

lemma int32_wrap_id: "c_int x \<Longrightarrow> int32_wrap x = x"
  by (simp add: c_int_def int32_wrap_def)

lemma cmpfunc_exact:
  "0 \<le> a \<Longrightarrow> a < 2 ^ 31 \<Longrightarrow> 0 \<le> b \<Longrightarrow> b < 2 ^ 31 \<Longrightarrow> cmpfunc a b = a - b"
  unfolding cmpfunc_def by (rule int32_wrap_id) (simp add: c_int_def)

lemma wrap_zero:
  fixes x m h :: int
  assumes "(x + h) mod m = h" "0 \<le> h" "h < m" "- m < x" "x < m"
  shows "x = 0"
proof -
  have "(x + h) mod m = h mod m" using assms by simp
  then have "m dvd (x + h) - h" by (simp add: mod_eq_dvd_iff)
  then have dv: "m dvd x" by simp
  show ?thesis
  proof (rule ccontr)
    assume nz: "x \<noteq> 0"
    show False
    proof (cases "0 < x")
      case True
      with dv assms(5) show False using zdvd_not_zless[of x m] by simp
    next
      case False
      with nz have "0 < - x" by simp
      moreover from dv have "m dvd - x" by simp
      moreover from assms(4) have "- x < m" by simp
      ultimately show False using zdvd_not_zless[of "- x" m] by blast
    qed
  qed
qed

lemma cmpfunc_zero:
  assumes "c_int a" "c_int b" "cmpfunc a b = 0"
  shows "a = b"
proof -
  from assms(3) have "(a - b + 2 ^ 31) mod 2 ^ 32 = (2 ^ 31 :: int)"
    by (simp add: cmpfunc_def int32_wrap_def)
  moreover from assms(1,2) have "- (2 ^ 32) < a - b" "a - b < 2 ^ 32"
    by (simp_all add: c_int_def)
  ultimately have "a - b = 0"
    using wrap_zero[of "a - b" "2 ^ 31" "2 ^ 32"] by simp
  then show ?thesis by simp
qed

lemma set_qsort_insert: "set (qsort_insert x xs) = insert x (set xs)"
  by (induction xs) auto

lemma length_qsort_insert: "length (qsort_insert x xs) = Suc (length xs)"
  by (induction xs) auto

lemma sorted_qsort_insert:
  "0 \<le> x \<Longrightarrow> x < 2 ^ 31 \<Longrightarrow> vertex_vals xs \<Longrightarrow> sorted xs \<Longrightarrow> sorted (qsort_insert x xs)"
  by (induction xs) (auto simp: set_qsort_insert vertex_vals_def cmpfunc_exact)

lemma set_qsort_list: "set (qsort_list xs) = set xs"
  by (induction xs) (auto simp: set_qsort_insert)

lemma length_qsort_list: "length (qsort_list xs) = length xs"
  by (induction xs) (auto simp: length_qsort_insert)

lemma sorted_qsort_list: "vertex_vals xs \<Longrightarrow> sorted (qsort_list xs)"
proof (induction xs)
  case Nil
  show ?case by simp
next
  case (Cons x xs)
  then have "vertex_vals (qsort_list xs)" "sorted (qsort_list xs)" "0 \<le> x" "x < 2 ^ 31"
    by (simp_all add: vertex_vals_def set_qsort_list)
  then show ?case by (simp add: sorted_qsort_insert)
qed

text \<open>A hit of the halving loop is a cell that holds the key.\<close>

lemma bsearch_loop_sound:
  "bsearch_loop key base l u \<Longrightarrow> u \<le> length base \<Longrightarrow> c_int key \<Longrightarrow> vertex_vals base
     \<Longrightarrow> \<exists>i. l \<le> i \<and> i < u \<and> base ! i = key"
proof (induction key base l u rule: bsearch_loop.induct)
  case (1 key base l u)
  show ?case
  proof (cases "l < u")
    case False
    with "1.prems"(1) show ?thesis by (simp add: bsearch_loop.simps[of key base l u])
  next
    case lu: True
    define idx where "idx = (l + u) div 2"
    define c where "c = cmpfunc key (base ! idx)"
    have idx: "l \<le> idx" "idx < u" using lu by (simp_all add: idx_def)
    consider "c < 0" | "c > 0" | "c = 0" by linarith
    then show ?thesis
    proof cases
      case 1
      with "1.prems"(1) lu have "bsearch_loop key base l idx"
        by (simp add: bsearch_loop.simps[of key base l u] idx_def c_def Let_def)
      with "1.IH"(1)[OF lu idx_def c_def 1] "1.prems" idx
      obtain i where "l \<le> i" "i < idx" "base ! i = key" by auto
      with idx show ?thesis by (intro exI[of _ i]) simp
    next
      case 2
      then have n: "\<not> c < 0" by simp
      from 2 "1.prems"(1) lu have "bsearch_loop key base (idx + 1) u"
        by (simp add: bsearch_loop.simps[of key base l u] idx_def c_def Let_def)
      with "1.IH"(2)[OF lu idx_def c_def n 2] "1.prems"
      obtain i where "idx + 1 \<le> i" "i < u" "base ! i = key" by auto
      with idx show ?thesis by (intro exI[of _ i]) simp
    next
      case 3
      have "base ! idx \<in> set base" using idx "1.prems"(2) by simp
      with "1.prems"(4) have "c_int (base ! idx)" by (auto simp: vertex_vals_def c_int_def)
      with 3 "1.prems"(3) have "key = base ! idx" by (auto simp: c_def intro: cmpfunc_zero)
      with idx show ?thesis by (intro exI[of _ idx]) simp
    qed
  qed
qed

text \<open>On a sorted array of vertex labels the halving loop finds every cell in its interval.\<close>

lemma bsearch_loop_complete:
  "sorted base \<Longrightarrow> vertex_vals base \<Longrightarrow> u \<le> length base \<Longrightarrow> l \<le> i \<Longrightarrow> i < u
     \<Longrightarrow> bsearch_loop (base ! i) base l u"
proof (induction "base ! i" base l u rule: bsearch_loop.induct)
  case (1 base l u)
  define idx where "idx = (l + u) div 2"
  define c where "c = cmpfunc (base ! i) (base ! idx)"
  have lu: "l < u" using 1 by simp
  have idx: "l \<le> idx" "idx < u" using lu by (simp_all add: idx_def)
  have "base ! i \<in> set base" "base ! idx \<in> set base" using idx 1 by simp_all
  with "1.prems"(2) have c: "c = base ! i - base ! idx"
    by (auto simp: c_def vertex_vals_def intro!: cmpfunc_exact)
  consider "c < 0" | "c > 0" | "c = 0" by linarith
  then show ?case
  proof cases
    case a: 1
    have "i < idx"
    proof (rule ccontr)
      assume "\<not> i < idx"
      then have "base ! idx \<le> base ! i"
        using "1.prems" by (auto intro!: sorted_nth_mono)
      with a c show False by simp
    qed
    with "1.hyps"(1)[OF lu idx_def c_def a] "1.prems" idx
    have "bsearch_loop (base ! i) base l idx" by simp
    with a lu show ?thesis
      by (subst bsearch_loop.simps) (simp add: idx_def[symmetric] c_def[symmetric] Let_def)
  next
    case b: 2
    then have n: "\<not> c < 0" by simp
    have "idx < i"
    proof (rule ccontr)
      assume "\<not> idx < i"
      then have "base ! i \<le> base ! idx"
        using "1.prems" idx by (auto intro!: sorted_nth_mono)
      with b c show False by simp
    qed
    with "1.hyps"(2)[OF lu idx_def c_def n b] "1.prems" idx
    have "bsearch_loop (base ! i) base (idx + 1) u" by simp
    with b n lu show ?thesis
      by (subst bsearch_loop.simps) (simp add: idx_def[symmetric] c_def[symmetric] Let_def)
  next
    case 3
    with lu show ?thesis
      by (subst bsearch_loop.simps) (simp add: idx_def[symmetric] c_def[symmetric] Let_def)
  qed
qed

lemma has_edge_linear_iff:
  "d s \<le> length (list_s s) \<Longrightarrow>
   has_edge_linear s i target \<longleftrightarrow> (\<exists>k. i \<le> k \<and> k < d s \<and> list_s s ! k = target)"
proof (induction s i target rule: has_edge_linear.induct)
  case (1 s i target)
  show ?case
  proof (cases "i < d s")
    case False
    then show ?thesis by (auto simp: has_edge_linear.simps[of s i target])
  next
    case True
    show ?thesis
    proof (cases "list_s s ! i = target")
      case t: True
      with True show ?thesis by (auto simp: has_edge_linear.simps[of s i target])
    next
      case f: False
      have "(\<exists>k\<ge>i. k < d s \<and> list_s s ! k = target) \<longleftrightarrow>
            (\<exists>k\<ge>i + 1. k < d s \<and> list_s s ! k = target)"
        using f by (metis Suc_eq_plus1 Suc_leI le_neq_implies_less add_leD1)
      with "1.IH"[OF True f "1.prems"] True f show ?thesis
        by (simp add: has_edge_linear.simps[of s i target])
    qed
  qed
qed

lemma has_edge_linear_mem:
  "succ_inv n s \<Longrightarrow> has_edge_linear s 0 target \<longleftrightarrow> target \<in> set (list_s s)"
  by (auto simp: has_edge_linear_iff succ_inv_def in_set_conv_nth)

lemma succ_inv_vals: "succ_inv n s \<Longrightarrow> n \<le> 2 ^ 31 \<Longrightarrow> vertex_vals (list_s s)"
  by (fastforce simp: succ_inv_def vertex_vals_def)

lemma bsearch_mem:
  assumes "sorted base" "vertex_vals base" "c_int key"
  shows "bsearch key base (length base) \<longleftrightarrow> key \<in> set base"
proof
  assume "bsearch key base (length base)"
  with assms bsearch_loop_sound[of key base 0 "length base"] show "key \<in> set base"
    by (auto simp: bsearch_def)
next
  assume "key \<in> set base"
  then obtain i where "i < length base" "base ! i = key" by (auto simp: in_set_conv_nth)
  with assms bsearch_loop_complete[of base "length base" 0 i] show "bsearch key base (length base)"
    by (auto simp: bsearch_def)
qed

lemma has_edge_bsearch_correct:
  assumes "succ_inv n s" "n \<le> 2 ^ 31" "c_int target"
  shows "\<exists>s'. has_edge_bsearch s target = (s', \<not> is_sorted s, target \<in> set (list_s s)) \<and>
              succ_inv n s' \<and> set (list_s s') = set (list_s s) \<and> is_sorted s' = is_sorted s \<and>
              d s' = d s"
proof (cases "is_sorted s")
  case True
  with assms have "sorted (list_s s)" "d s = length (list_s s)" by (simp_all add: succ_inv_def)
  with assms True bsearch_mem[of "list_s s" target] succ_inv_vals[OF assms(1,2)]
  show ?thesis by (simp add: has_edge_bsearch_def)
next
  case False
  define s' where "s' = s\<lparr>list_s := qsort (list_s s) (d s)\<rparr>"
  from assms have ds: "d s = length (list_s s)" by (simp add: succ_inv_def)
  then have l: "list_s s' = qsort_list (list_s s)" by (simp add: s'_def qsort_def)
  have v: "vertex_vals (list_s s)" by (rule succ_inv_vals[OF assms(1,2)])
  then have "sorted (list_s s')" "vertex_vals (list_s s')"
    by (simp_all add: l sorted_qsort_list vertex_vals_def set_qsort_list)
  with assms(3) have "bsearch target (list_s s') (length (list_s s')) \<longleftrightarrow> target \<in> set (list_s s')"
    by (intro bsearch_mem)
  moreover have "length (list_s s') = d s'" by (simp add: l length_qsort_list) (simp add: ds s'_def)
  moreover have "succ_inv n s'"
    using assms(1) False l by (simp add: succ_inv_def set_qsort_list length_qsort_list s'_def)
  ultimately show ?thesis
    using False by (simp add: has_edge_bsearch_def s'_def[symmetric] l set_qsort_list Let_def) (simp add: s'_def)
qed

lemma graph_has_edge_correct:
  assumes "graph_inv g" "0 \<le> source" "source < V g" "c_int target"
  shows "\<exists>g' sn. graph_has_edge g source target = Inr (g', sn, target \<in> succs g source) \<and>
           graph_inv g' \<and> V g' = V g \<and> E g' = E g \<and> (\<forall>u. succs g' u = succs g u)"
proof -
  define s where "s = alist g ! nat source"
  from assms have ns: "nat source < length (alist g)" by (simp add: graph_inv_def)
  with assms(1) have si: "succ_inv (V g) s" by (simp add: graph_inv_def s_def)
  from assms(1) have vb: "V g \<le> 2 ^ 31" by (simp add: graph_inv_def)
  have deg: "graph_out_degree g source = Inr (d s)"
    using assms by (simp add: graph_out_degree_def s_def)
  show ?thesis
  proof (cases "d s \<ge> BSEARCH_PROMPT_SIZE")
    case False
    with deg have "graph_has_edge g source target = Inr (g, False, target \<in> succs g source)"
      by (simp add: graph_has_edge_def s_def[symmetric] has_edge_linear_mem[OF si] succs_def)
    with assms(1) show ?thesis by blast
  next
    case True
    from has_edge_bsearch_correct[OF si vb assms(4)] obtain s' where
      s': "has_edge_bsearch s target = (s', \<not> is_sorted s, target \<in> set (list_s s))"
        "succ_inv (V g) s'" "set (list_s s') = set (list_s s)" by blast
    define g' where "g' = g\<lparr>alist := (alist g)[nat source := s']\<rparr>"
    have "graph_inv g'"
      using assms(1) s'(2) by (auto simp: graph_inv_def g'_def dest!: set_update_subset_insert[THEN subsetD])
    moreover have "succs g' u = succs g u" for u
      using ns s'(3) by (cases "nat u = nat source") (simp_all add: succs_def g'_def s_def)
    moreover have "graph_has_edge g source target = Inr (g', \<not> is_sorted s, target \<in> succs g source)"
      using True deg s'(1)
      by (simp add: graph_has_edge_def s_def[symmetric] g'_def[symmetric] succs_def)
    moreover have "V g' = V g" "E g' = E g" by (simp_all add: g'_def)
    ultimately show ?thesis by blast
  qed
qed

section \<open>Claims about the graph query\<close>

text \<open>
  C5. For every graph in the state the graph module keeps it in, every source vertex of
  the graph and every target, \<open>graph_has_edge\<close> answers whether the target occurs in the
  source's successor list, whichever of its two branches the out-degree selects; and on
  the same successor list the sort-and-search branch and the linear scan give the same
  answer, whatever the out-degree, hence also with 14 and with 15 successors.
\<close>

theorem graph_has_edge_paths_agree:
  assumes "graph_inv g" "0 \<le> source" "source < V g" "c_int target"
  shows "(\<exists>g' sorted_now.
            graph_has_edge g source target = Inr (g', sorted_now, target \<in> succs g source)) \<and>
         snd (snd (has_edge_bsearch (alist g ! nat source) target)) =
           has_edge_linear (alist g ! nat source) 0 target \<and>
         (has_edge_linear (alist g ! nat source) 0 target \<longleftrightarrow> target \<in> succs g source)"
proof -
  from assms have "nat source < length (alist g)" by (simp add: graph_inv_def)
  with assms(1) have si: "succ_inv (V g) (alist g ! nat source)" by (simp add: graph_inv_def)
  from assms(1) have vb: "V g \<le> 2 ^ 31" by (simp add: graph_inv_def)
  from has_edge_bsearch_correct[OF si vb assms(4)] obtain s' where
    "has_edge_bsearch (alist g ! nat source) target =
       (s', \<not> is_sorted (alist g ! nat source), target \<in> set (list_s (alist g ! nat source)))"
    by blast
  then have b: "snd (snd (has_edge_bsearch (alist g ! nat source) target)) \<longleftrightarrow>
                target \<in> succs g source"
    by (simp add: succs_def)
  have l: "has_edge_linear (alist g ! nat source) 0 target \<longleftrightarrow> target \<in> succs g source"
    unfolding succs_def by (rule has_edge_linear_mem[OF si])
  from graph_has_edge_correct[OF assms]
  have "\<exists>g' sorted_now.
          graph_has_edge g source target = Inr (g', sorted_now, target \<in> succs g source)"
    by blast
  with b l show ?thesis by blast
qed

theorem graph_has_edge_paths_agree_witness:
  "graph_inv (star_graph 15 16) \<and> graph_out_degree (star_graph 15 16) 0 = Inr 15 \<and>
   (\<exists>g' sorted_now. graph_has_edge (star_graph 15 16) 0 7 = Inr (g', sorted_now, True)) \<and>
   has_edge_linear (alist (star_graph 15 16) ! 0) 0 7 \<and>
   graph_inv (star_graph 14 16) \<and> graph_out_degree (star_graph 14 16) 0 = Inr 14 \<and>
   (\<exists>g' sorted_now. graph_has_edge (star_graph 14 16) 0 7 = Inr (g', sorted_now, True)) \<and>
   snd (snd (has_edge_bsearch (alist (star_graph 14 16) ! 0) 7))"
proof -
  have i15: "graph_inv (star_graph 15 16)" and i14: "graph_inv (star_graph 14 16)"
    by code_simp+
  have v15: "(0::int) < V (star_graph 15 16)" and v14: "(0::int) < V (star_graph 14 16)"
    by (simp_all add: star_graph_def)
  have c: "c_int 7" by (simp add: c_int_def)
  have m15: "(7::int) \<in> succs (star_graph 15 16) 0" and m14: "(7::int) \<in> succs (star_graph 14 16) 0"
    by code_simp+
  have d15: "graph_out_degree (star_graph 15 16) 0 = Inr 15"
    and d14: "graph_out_degree (star_graph 14 16) 0 = Inr 14"
    by code_simp+
  note t15 = graph_has_edge_paths_agree[OF i15 order_refl v15 c]
  note t14 = graph_has_edge_paths_agree[OF i14 order_refl v14 c]
  from t15 m15 have e15:
    "\<exists>g' sorted_now. graph_has_edge (star_graph 15 16) 0 7 = Inr (g', sorted_now, True)"
    by (simp only: simp_thms)
  from t14 m14 have e14:
    "\<exists>g' sorted_now. graph_has_edge (star_graph 14 16) 0 7 = Inr (g', sorted_now, True)"
    by (simp only: simp_thms)
  from t15 m15 have l15: "has_edge_linear (alist (star_graph 15 16) ! 0) 0 7"
    by (simp only: simp_thms nat_0)
  from t14 m14 have b14: "snd (snd (has_edge_bsearch (alist (star_graph 14 16) ! 0) 7))"
    by (simp only: simp_thms nat_0)
  from i15 d15 e15 l15 i14 d14 e14 b14 show ?thesis by (intro conjI)
qed

text \<open>
  C4. The arguments \<open>0-15 ... 0-1\<close> give vertex 0 fifteen successors. The first query on
  vertex 0 calls \<open>qsort\<close> and leaves \<open>is_sorted\<close> false, so the second query on the same
  vertex calls \<open>qsort\<close> again, with no \<open>graph_add_edge\<close> in between: the flag is tested
  and reset but never set after sorting.
\<close>

theorem graph_has_edge_sorts_again:
  "generator_graph (star_args 15) = Some (Inr (0 # map int (rev [1..<16]), star_graph 15 16)) \<and>
   graph_has_edge (star_graph 15 16) 0 7 = Inr (star_graph_sorted 15 16, True, True) \<and>
   is_sorted (alist (star_graph_sorted 15 16) ! 0) = False \<and>
   graph_has_edge (star_graph_sorted 15 16) 0 7 = Inr (star_graph_sorted 15 16, True, True)"
  by code_simp

section \<open>Properties of the scan\<close>

lemma row_edges_cong: "(\<And>u. succs g' u = succs g u) \<Longrightarrow> row_edges g' vs i j = row_edges g vs i j"
  by (simp add: row_edges_def)

lemma rows_edges_cong: "(\<And>u. succs g' u = succs g u) \<Longrightarrow> rows_edges g' vs n i = rows_edges g vs n i"
  by (simp add: rows_edges_def row_edges_def)

lemma vertices_of_cong: "V g' = V g \<Longrightarrow> vertices_of g' vs = vertices_of g vs"
  by (simp add: vertices_of_def)

lemma vertices_of_c_int:
  assumes "graph_inv g" "vertices_of g vs" "k < length vs"
  shows "c_int (vs ! k)"
proof -
  from assms(3) have "vs ! k \<in> set vs" by simp
  with assms(2) have "0 \<le> vs ! k" "vs ! k < V g" by (simp_all add: vertices_of_def)
  moreover from assms(1) have "V g < 2 ^ 31" by (simp add: graph_inv_def)
  ultimately show ?thesis by (simp add: c_int_def)
qed

lemma row_edges_step:
  "j < i \<Longrightarrow> row_edges g vs i j =
     (if vs ! j \<in> succs g (vs ! i) then [\<lparr>src = vs ! i, trgt = vs ! j\<rparr>] else []) @ row_edges g vs i (Suc j)"
  by (simp add: row_edges_def upt_conv_Cons)

lemma scan_row_result:
  assumes "graph_inv g" "vertices_of g vs" "i < length vs" "j \<le> i"
  shows "\<exists>g'. scan_row g vs i j es c =
                 Inr (g', es @ row_edges g vs i j, c + int (length (row_edges g vs i j))) \<and>
              graph_inv g' \<and> V g' = V g \<and> (\<forall>u. succs g' u = succs g u)"
  using assms
proof (induction "i - j" arbitrary: j g es c)
  case 0
  then have "j = i" by simp
  with "0.prems" show ?case
    by (simp add: scan_row.simps[of g vs i i] row_edges_def)
next
  case (Suc m)
  then have ji: "j < i" by simp
  have ri: "0 \<le> vs ! i" "vs ! i < V g" using Suc.prems by (simp_all add: vertices_of_def)
  have cj: "c_int (vs ! j)" using Suc.prems ji by (intro vertices_of_c_int[of g vs]) simp_all
  from graph_has_edge_correct[OF Suc.prems(1) ri cj] obtain g1 sn where
    g1: "graph_has_edge g (vs ! i) (vs ! j) = Inr (g1, sn, vs ! j \<in> succs g (vs ! i))"
      "graph_inv g1" "V g1 = V g" "\<And>u. succs g1 u = succs g u" by blast
  have v1: "vertices_of g1 vs" using Suc.prems(2) g1(3) by (simp add: vertices_of_def)
  have m: "m = i - Suc j" using Suc.hyps(2) by simp
  have le: "Suc j \<le> i" using ji by simp
  note IH = Suc.hyps(1)[OF m g1(2) v1 Suc.prems(3) le]
  show ?case
  proof (cases "vs ! j \<in> succs g (vs ! i)")
    case True
    from IH[of "es @ [\<lparr>src = vs ! i, trgt = vs ! j\<rparr>]" "c + 1"] obtain g' where
      "scan_row g1 vs i (Suc j) (es @ [\<lparr>src = vs ! i, trgt = vs ! j\<rparr>]) (c + 1) =
         Inr (g', (es @ [\<lparr>src = vs ! i, trgt = vs ! j\<rparr>]) @ row_edges g1 vs i (Suc j),
              c + 1 + int (length (row_edges g1 vs i (Suc j))))"
      "graph_inv g'" "V g' = V g1" "\<And>u. succs g' u = succs g1 u" by blast
    with True ji g1 show ?thesis
      by (simp add: scan_row.simps[of g vs i j] row_edges_step[of j i g] row_edges_cong[of g1 g])
  next
    case False
    from IH[of es c] obtain g' where
      "scan_row g1 vs i (Suc j) es c =
         Inr (g', es @ row_edges g1 vs i (Suc j), c + int (length (row_edges g1 vs i (Suc j))))"
      "graph_inv g'" "V g' = V g1" "\<And>u. succs g' u = succs g1 u" by blast
    with False ji g1 show ?thesis
      by (simp add: scan_row.simps[of g vs i j] row_edges_step[of j i g] row_edges_cong[of g1 g])
  qed
qed

lemma rows_edges_step:
  "i < n \<Longrightarrow> rows_edges g vs n i = row_edges g vs i 0 @ rows_edges g vs n (Suc i)"
  by (simp add: rows_edges_def upt_conv_Cons)

lemma exhaustive_rows_result:
  assumes "graph_inv g" "vertices_of g vs" "n \<le> length vs"
  shows "\<exists>g'. exhaustive_rows g vs n i es c =
                 Inr (g', es @ rows_edges g vs n i, c + int (length (rows_edges g vs n i))) \<and>
              graph_inv g' \<and> V g' = V g \<and> (\<forall>u. succs g' u = succs g u)"
  using assms
proof (induction "n - i" arbitrary: i g es c)
  case 0
  then show ?case
    by (simp add: exhaustive_rows.simps[of g vs n i] rows_edges_def)
next
  case (Suc m)
  then have lt: "i < n" by simp
  then have il: "i < length vs" using Suc.prems by simp
  from scan_row_result[OF Suc.prems(1,2) il, of 0 es c] obtain g1 where
    g1: "scan_row g vs i 0 es c =
           Inr (g1, es @ row_edges g vs i 0, c + int (length (row_edges g vs i 0)))"
      "graph_inv g1" "V g1 = V g" "\<And>u. succs g1 u = succs g u" by auto
  have v1: "vertices_of g1 vs" using Suc.prems(2) g1(3) by (simp add: vertices_of_def)
  have m: "m = n - Suc i" using Suc.hyps(2) by simp
  from Suc.hyps(1)[OF m g1(2) v1 Suc.prems(3), of "es @ row_edges g vs i 0"
      "c + int (length (row_edges g vs i 0))"]
  obtain g' where
    "exhaustive_rows g1 vs n (Suc i) (es @ row_edges g vs i 0) (c + int (length (row_edges g vs i 0))) =
       Inr (g', (es @ row_edges g vs i 0) @ rows_edges g1 vs n (Suc i),
            c + int (length (row_edges g vs i 0)) + int (length (rows_edges g1 vs n (Suc i))))"
    "graph_inv g'" "V g' = V g1" "\<And>u. succs g' u = succs g1 u" by blast
  with lt g1 show ?case
    by (simp add: exhaustive_rows.simps[of g vs n i] rows_edges_step[of i n g] rows_edges_cong[of g1 g])
qed

lemma scan_row_mono:
  "scan_row g vs i j es c = Inr (g', es', c') \<Longrightarrow> c \<le> c'"
proof (induction g vs i j es c rule: scan_row.induct)
  case (1 g vs i j es c)
  show ?case
  proof (cases "j < i")
    case False
    with "1.prems" show ?thesis by (simp add: scan_row.simps[of g vs i j])
  next
    case True
    with "1.prems" obtain g1 sn found where
      h: "graph_has_edge g (vs ! i) (vs ! j) = Inr (g1, sn, found)"
      by (auto simp: scan_row.simps[of g vs i j] split: sum.splits)
    show ?thesis
    proof (cases found)
      case t: True
      with "1.prems" True h have
        "scan_row g1 vs i (j + 1) (es @ [\<lparr>src = vs ! i, trgt = vs ! j\<rparr>]) (c + 1) = Inr (g', es', c')"
        by (simp add: scan_row.simps[of g vs i j])
      from "1.IH"(1)[OF True h refl refl t this] show ?thesis by simp
    next
      case f: False
      with "1.prems" True h have "scan_row g1 vs i (j + 1) es c = Inr (g', es', c')"
        by (simp add: scan_row.simps[of g vs i j])
      from "1.IH"(2)[OF True h refl refl f this] show ?thesis by simp
    qed
  qed
qed

lemma exhaustive_rows_mono:
  "exhaustive_rows g vs n i es c = Inr (g', es', k) \<Longrightarrow> c \<le> k"
proof (induction g vs n i es c rule: exhaustive_rows.induct)
  case (1 g vs n i es c)
  show ?case
  proof (cases "i < n")
    case False
    with "1.prems" show ?thesis by (simp add: exhaustive_rows.simps[of g vs n i])
  next
    case True
    with "1.prems" obtain g1 es1 c1 where
      h: "scan_row g vs i 0 es c = Inr (g1, es1, c1)"
      by (auto simp: exhaustive_rows.simps[of g vs n i] split: sum.splits)
    with "1.prems" True have "exhaustive_rows g1 vs n (i + 1) es1 c1 = Inr (g', es', k)"
      by (simp add: exhaustive_rows.simps[of g vs n i])
    from "1.IH"[OF True h refl refl this] scan_row_mono[OF h] show ?thesis by simp
  qed
qed

lemma exhaustive_rows_done: "\<not> i < n \<Longrightarrow> exhaustive_rows g vs n i es c = Inr (g, es, c)"
  by (simp add: exhaustive_rows.simps[of g vs n i])

text \<open>The pruned scan against the exhaustive one, from any row on.\<close>

lemma scan_rows_prunes:
  "exhaustive_rows g vs n i es c = Inr (g2, es2, k) \<Longrightarrow>
   \<exists>g1 es1 c1 ab. scan_rows g vs n i es c b = Inr (g1, es1, c1, ab) \<and>
      (ab \<longrightarrow> b \<le> c1 \<and> c1 \<le> k) \<and>
      (\<not> ab \<longrightarrow> g1 = g2 \<and> es1 = es2 \<and> c1 = k \<and> (i < n \<longrightarrow> k < b))"
proof (induction g vs n i es c rule: exhaustive_rows.induct)
  case (1 g vs n i es c)
  show ?case
  proof (cases "i < n")
    case False
    then have "scan_rows g vs n i es c b = Inr (g, es, c, False)"
      by (simp add: scan_rows.simps[of g vs n i])
    moreover from False "1.prems" have "g = g2" "es = es2" "c = k"
      by (simp_all add: exhaustive_rows.simps[of g vs n i])
    ultimately show ?thesis using False by blast
  next
    case True
    with "1.prems" obtain g' es' c' where
      h: "scan_row g vs i 0 es c = Inr (g', es', c')"
      by (auto simp: exhaustive_rows.simps[of g vs n i] split: sum.splits)
    with "1.prems" True have ex: "exhaustive_rows g' vs n (i + 1) es' c' = Inr (g2, es2, k)"
      by (simp add: exhaustive_rows.simps[of g vs n i])
    show ?thesis
    proof (cases "c' \<ge> b")
      case ab: True
      with True h have "scan_rows g vs n i es c b = Inr (g', es', c', True)"
        by (simp add: scan_rows.simps[of g vs n i])
      with ab exhaustive_rows_mono[OF ex] show ?thesis by blast
    next
      case nab: False
      with True h have eq: "scan_rows g vs n i es c b = scan_rows g' vs n (i + 1) es' c' b"
        by (simp add: scan_rows.simps[of g vs n i])
      from "1.IH"[OF True h refl refl ex] obtain g1 es1 c1 ab where
        r: "scan_rows g' vs n (i + 1) es' c' b = Inr (g1, es1, c1, ab)"
          "ab \<longrightarrow> b \<le> c1 \<and> c1 \<le> k"
          "\<not> ab \<longrightarrow> g1 = g2 \<and> es1 = es2 \<and> c1 = k \<and> (i + 1 < n \<longrightarrow> k < b)" by blast
      have "\<not> ab \<longrightarrow> k < b"
      proof
        assume na: "\<not> ab"
        show "k < b"
        proof (cases "i + 1 < n")
          case True
          with r(3) na show ?thesis by simp
        next
          case False
          with ex have "k = c'" by (simp add: exhaustive_rows_done)
          with nab show ?thesis by simp
        qed
      qed
      with r eq show ?thesis by auto
    qed
  qed
qed

lemma pair_scan_vs_exhaustive:
  assumes "graph_inv g" "vertices_of g vs"
  shows "\<exists>g2 g1 es1 c1 ab.
           exhaustive_rows g vs (length vs) 1 [] 0 =
             Inr (g2, rows_edges g vs (length vs) 1, int (length (rows_edges g vs (length vs) 1))) \<and>
           pair_scan g vs b = Inr (g1, es1, c1, ab) \<and>
           (ab \<longrightarrow> b \<le> c1 \<and> c1 \<le> int (length (rows_edges g vs (length vs) 1))) \<and>
           (\<not> ab \<longrightarrow> es1 = rows_edges g vs (length vs) 1 \<and>
                     c1 = int (length (rows_edges g vs (length vs) 1)) \<and>
                     (1 < length vs \<longrightarrow> c1 < b)) \<and>
           (\<forall>u. succs g2 u = succs g u)"
proof -
  from exhaustive_rows_result[OF assms order_refl, of 1 "[]" 0] obtain g2 where
    ex: "exhaustive_rows g vs (length vs) 1 [] 0 =
           Inr (g2, rows_edges g vs (length vs) 1, int (length (rows_edges g vs (length vs) 1)))"
    and s2: "\<forall>u. succs g2 u = succs g u"
    by auto
  from scan_rows_prunes[OF ex, of b] obtain g1 es1 c1 ab where
    "scan_rows g vs (length vs) 1 [] 0 b = Inr (g1, es1, c1, ab)"
    "ab \<longrightarrow> b \<le> c1 \<and> c1 \<le> int (length (rows_edges g vs (length vs) 1))"
    "\<not> ab \<longrightarrow> g1 = g2 \<and> es1 = rows_edges g vs (length vs) 1 \<and>
       c1 = int (length (rows_edges g vs (length vs) 1)) \<and>
       (1 < length vs \<longrightarrow> int (length (rows_edges g vs (length vs) 1)) < b)"
    by blast
  with ex s2 show ?thesis unfolding pair_scan_def by auto
qed

lemma in_rows_edges:
  "e \<in> set (rows_edges g vs n 1) \<longleftrightarrow>
     (\<exists>i j. j < i \<and> i < n \<and> e = \<lparr>src = vs ! i, trgt = vs ! j\<rparr> \<and> vs ! j \<in> succs g (vs ! i))"
proof
  assume "e \<in> set (rows_edges g vs n 1)"
  then obtain i j where "i < n" "j < i" "vs ! j \<in> succs g (vs ! i)"
    "e = \<lparr>src = vs ! i, trgt = vs ! j\<rparr>"
    by (auto simp: rows_edges_def row_edges_def)
  then show "\<exists>i j. j < i \<and> i < n \<and> e = \<lparr>src = vs ! i, trgt = vs ! j\<rparr> \<and> vs ! j \<in> succs g (vs ! i)"
    by blast
next
  assume "\<exists>i j. j < i \<and> i < n \<and> e = \<lparr>src = vs ! i, trgt = vs ! j\<rparr> \<and> vs ! j \<in> succs g (vs ! i)"
  then obtain i j where ij: "j < i" "i < n" "e = \<lparr>src = vs ! i, trgt = vs ! j\<rparr>"
    "vs ! j \<in> succs g (vs ! i)" by blast
  then have "i \<in> set [1..<n]" by simp
  moreover from ij have "e \<in> set (row_edges g vs i 0)"
    by (simp add: row_edges_def)
  ultimately show "e \<in> set (rows_edges g vs n 1)"
    unfolding rows_edges_def by (simp only: set_concat set_map) blast
qed

text \<open>
  Without any assumption on the graph: whenever the scan of all pairs returns a decision,
  the loop body with the early stop returns the same one.
\<close>

lemma early_stop_follows_exhaustive:
  assumes "exhaustive_decision g vs b = Inr dec"
  shows "scan_decision g vs b = Inr dec"
proof -
  from assms obtain g2 es2 k where
    ex: "exhaustive_rows g vs (length vs) 1 [] 0 = Inr (g2, es2, k)" and dec: "dec = improves b k"
    by (auto simp: exhaustive_decision_def split: sum.splits)
  from scan_rows_prunes[OF ex, of b] obtain g1 es1 c1 ab where
    ps: "scan_rows g vs (length vs) 1 [] 0 b = Inr (g1, es1, c1, ab)"
    and ab: "ab \<longrightarrow> b \<le> c1 \<and> c1 \<le> k" and nab: "\<not> ab \<longrightarrow> c1 = k"
    by blast
  have "(if ab then False else improves b c1) = improves b k"
  proof (cases ab)
    case True
    with ab have "b \<le> k" by simp
    with True show ?thesis by (simp add: improves_def)
  next
    case False
    with nab show ?thesis by simp
  qed
  with ps dec show ?thesis by (simp add: scan_decision_def pair_scan_def)
qed

text \<open>The example graphs are those the generator builds from the example arguments.\<close>

lemma example_graphs_built:
  "generator_graph (star_args 14) = Some (Inr (0 # map int (rev [1..<15]), star_graph 14 16))"
  "generator_graph (star_args 15) = Some (Inr (0 # map int (rev [1..<16]), star_graph 15 16))"
  "generator_graph [(0, 1), (1, 2), (2, 0)] = Some (Inr ([0, 1, 2], cycle3))"
  by code_simp+

section \<open>Claims about the scan of an ordering\<close>

text \<open>
  C6. For every graph the module can build, every ordering of its vertices and every
  local best \<open>b\<close>, the loop body with the early stop decides as the scan of all pairs
  followed by the comparison of the full count \<open>k\<close> with \<open>b\<close> does, and both return a
  decision; when the scan is stopped, the full count \<open>k\<close> is at least \<open>b\<close>.
\<close>

theorem early_stop_keeps_decision:
  assumes "graph_inv g" "vertices_of g vertex_set"
  shows "scan_decision g vertex_set best = exhaustive_decision g vertex_set best \<and>
         (\<exists>dec. exhaustive_decision g vertex_set best = Inr dec) \<and>
         (\<forall>g1 es1 c1 g2 es2 k.
            pair_scan g vertex_set best = Inr (g1, es1, c1, True) \<and>
            exhaustive_rows g vertex_set (length vertex_set) 1 [] 0 = Inr (g2, es2, k)
            \<longrightarrow> best \<le> k)"
proof -
  let ?k = "int (length (rows_edges g vertex_set (length vertex_set) 1))"
  from pair_scan_vs_exhaustive[OF assms, of best] obtain g2 g1 es1 c1 ab where
    ex: "exhaustive_rows g vertex_set (length vertex_set) 1 [] 0 =
           Inr (g2, rows_edges g vertex_set (length vertex_set) 1, ?k)"
    and ps: "pair_scan g vertex_set best = Inr (g1, es1, c1, ab)"
    and ab: "ab \<longrightarrow> best \<le> c1 \<and> c1 \<le> ?k"
    and nab: "\<not> ab \<longrightarrow> c1 = ?k"
    by blast
  have ed: "exhaustive_decision g vertex_set best = Inr (improves best ?k)"
    using ex by (simp add: exhaustive_decision_def)
  have sd: "scan_decision g vertex_set best = Inr (if ab then False else improves best c1)"
    using ps by (simp add: scan_decision_def)
  have "(if ab then False else improves best c1) = improves best ?k"
  proof (cases ab)
    case True
    with ab have "best \<le> ?k" by simp
    with True show ?thesis by (simp add: improves_def)
  next
    case False
    with nab show ?thesis by simp
  qed
  with ed sd have "scan_decision g vertex_set best = exhaustive_decision g vertex_set best"
    by simp
  moreover from ed have "\<exists>dec. exhaustive_decision g vertex_set best = Inr dec" by blast
  moreover have "best \<le> k"
    if "pair_scan g vertex_set best = Inr (g1', es1', c1', True) \<and>
        exhaustive_rows g vertex_set (length vertex_set) 1 [] 0 = Inr (g2', es2', k)"
    for g1' es1' c1' g2' es2' k
  proof -
    from that ps have "ab" "c1' = c1" by simp_all
    moreover from that ex have "k = ?k" by simp
    ultimately show ?thesis using ab by simp
  qed
  ultimately show ?thesis by blast
qed

theorem early_stop_keeps_decision_witness:
  "graph_inv cycle3 \<and> vertices_of cycle3 [0, 1, 2] \<and>
   scan_decision cycle3 [0, 1, 2] 2 = Inr True \<and> exhaustive_decision cycle3 [0, 1, 2] 2 = Inr True \<and>
   pair_scan cycle3 [0, 1, 2] 1 = Inr (cycle3, [\<lparr>src = 2, trgt = 0\<rparr>], 1, True) \<and>
   scan_decision cycle3 [0, 1, 2] 1 = Inr False \<and> exhaustive_decision cycle3 [0, 1, 2] 1 = Inr False"
proof -
  have i: "graph_inv cycle3" by code_simp
  have v: "vertices_of cycle3 [0, 1, 2]" by code_simp
  have s2: "scan_decision cycle3 [0, 1, 2] 2 = Inr True" by code_simp
  have p1: "pair_scan cycle3 [0, 1, 2] 1 = Inr (cycle3, [\<lparr>src = 2, trgt = 0\<rparr>], 1, True)"
    by code_simp
  have s1: "scan_decision cycle3 [0, 1, 2] 1 = Inr False" by code_simp
  from early_stop_keeps_decision[OF i v, of 2] s2
  have e2: "exhaustive_decision cycle3 [0, 1, 2] 2 = Inr True" by simp
  from early_stop_keeps_decision[OF i v, of 1] s1
  have e1: "exhaustive_decision cycle3 [0, 1, 2] 1 = Inr False" by simp
  from i v s2 e2 p1 s1 e1 show ?thesis by (intro conjI)
qed

text \<open>A scan that runs to its end hands back the graph the scan of all pairs ends with.\<close>

lemma pair_scan_completed:
  assumes "graph_inv g" "vertices_of g vs"
  shows "\<exists>g1 es1 c1 ab. pair_scan g vs b = Inr (g1, es1, c1, ab) \<and>
           (ab \<longrightarrow> b \<le> c1 \<and> c1 \<le> int (length (rows_edges g vs (length vs) 1))) \<and>
           (\<not> ab \<longrightarrow> es1 = rows_edges g vs (length vs) 1 \<and>
                     c1 = int (length (rows_edges g vs (length vs) 1)) \<and>
                     (\<forall>u. succs g1 u = succs g u))"
proof -
  from exhaustive_rows_result[OF assms order_refl, of 1 "[]" 0] obtain g2 where
    ex: "exhaustive_rows g vs (length vs) 1 [] 0 =
           Inr (g2, rows_edges g vs (length vs) 1, int (length (rows_edges g vs (length vs) 1)))"
    and s2: "\<forall>u. succs g2 u = succs g u"
    by auto
  from scan_rows_prunes[OF ex, of b] obtain g1 es1 c1 ab where
    "scan_rows g vs (length vs) 1 [] 0 b = Inr (g1, es1, c1, ab)"
    "ab \<longrightarrow> b \<le> c1 \<and> c1 \<le> int (length (rows_edges g vs (length vs) 1))"
    "\<not> ab \<longrightarrow> g1 = g2 \<and> es1 = rows_edges g vs (length vs) 1 \<and>
       c1 = int (length (rows_edges g vs (length vs) 1))"
    by blast
  with s2 show ?thesis unfolding pair_scan_def by auto
qed

text \<open>
  C7. For every graph the module can build and every ordering of its vertices, the scan
  returns. Whenever the ordering has fewer back-edges than the local best, the scan runs
  to its end; and whenever it runs to its end, the edges it has collected are edges of
  the graph whose source stands after its target in the ordering, each counted, and they
  are all of them: every edge of the graph whose source stands after its target is in the
  collected set, so that once the set is removed no such edge is left. The scan leaves
  the edges of the graph as they are.
\<close>

theorem back_edges_leave_order_consistent:
  assumes "graph_inv g" "vertices_of g vertex_set"
  shows "\<exists>g' edge_set calc better_sol_ex.
           pair_scan g vertex_set best = Inr (g', edge_set, calc, better_sol_ex) \<and>
           (int (length (rows_edges g vertex_set (length vertex_set) 1)) < best
              \<longrightarrow> \<not> better_sol_ex) \<and>
           (\<not> better_sol_ex \<longrightarrow>
              (\<forall>i j. j < i \<and> i < length vertex_set \<and>
                     vertex_set ! j \<in> succs g (vertex_set ! i) \<longrightarrow>
                     \<lparr>src = vertex_set ! i, trgt = vertex_set ! j\<rparr> \<in> set edge_set) \<and>
              (\<forall>i j. j < i \<and> i < length vertex_set \<longrightarrow>
                     \<not> residual_edge g edge_set (vertex_set ! i) (vertex_set ! j)) \<and>
              (\<forall>e\<in>set edge_set. \<exists>i j. j < i \<and> i < length vertex_set \<and>
                     e = \<lparr>src = vertex_set ! i, trgt = vertex_set ! j\<rparr> \<and>
                     vertex_set ! j \<in> succs g (vertex_set ! i)) \<and>
              edge_set = rows_edges g vertex_set (length vertex_set) 1 \<and>
              calc = int (length edge_set) \<and> (\<forall>u. succs g' u = succs g u))"
proof -
  let ?n = "length vertex_set"
  let ?es = "rows_edges g vertex_set ?n 1"
  from pair_scan_completed[OF assms, of best] obtain g1 es1 c1 ab where
    ps: "pair_scan g vertex_set best = Inr (g1, es1, c1, ab)"
    and ab: "ab \<longrightarrow> best \<le> c1 \<and> c1 \<le> int (length ?es)"
    and nab: "\<not> ab \<longrightarrow> es1 = ?es \<and> c1 = int (length ?es) \<and> (\<forall>u. succs g1 u = succs g u)"
    by blast
  have run: "int (length ?es) < best \<longrightarrow> \<not> ab" using ab by auto
  have all: "\<lparr>src = vertex_set ! i, trgt = vertex_set ! j\<rparr> \<in> set ?es"
    if "j < i \<and> i < ?n \<and> vertex_set ! j \<in> succs g (vertex_set ! i)" for i j
    using that unfolding in_rows_edges by blast
  have res: "\<not> residual_edge g ?es (vertex_set ! i) (vertex_set ! j)" if "j < i \<and> i < ?n" for i j
    using that unfolding residual_edge_def in_rows_edges by blast
  have snd: "\<exists>i j. j < i \<and> i < ?n \<and> e = \<lparr>src = vertex_set ! i, trgt = vertex_set ! j\<rparr> \<and>
            vertex_set ! j \<in> succs g (vertex_set ! i)" if "e \<in> set ?es" for e
    using that unfolding in_rows_edges by blast
  show ?thesis
  proof (cases ab)
    case True
    from run True have nb: "\<not> int (length ?es) < best" by blast
    show ?thesis
      apply (rule exI[of _ g1], rule exI[of _ es1], rule exI[of _ c1], rule exI[of _ True])
      using ps True nb by simp
  next
    case False
    with nab have e: "es1 = ?es" "c1 = int (length ?es)" "\<forall>u. succs g1 u = succs g u"
      by simp_all
    have p: "pair_scan g vertex_set best = Inr (g1, ?es, int (length ?es), False)"
      using ps False e by simp
    show ?thesis
      apply (rule exI[of _ g1], rule exI[of _ ?es], rule exI[of _ "int (length ?es)"],
             rule exI[of _ False])
      apply (intro conjI impI allI ballI)
      subgoal by (rule p)
      subgoal by simp
      subgoal for i j by (rule all)
      subgoal for i j by (rule res)
      subgoal for e' by (rule snd)
      subgoal by (rule refl)
      subgoal by (rule refl)
      subgoal for u using e(3) by simp
      done
  qed
qed


theorem back_edges_leave_order_consistent_witness:
  "graph_inv cycle3 \<and> vertices_of cycle3 [0, 1, 2] \<and>
   int (length (rows_edges cycle3 [0, 1, 2] (length [0, 1, 2 :: int]) 1)) < 2 \<and>
   pair_scan cycle3 [0, 1, 2] 2 = Inr (cycle3, [\<lparr>src = 2, trgt = 0\<rparr>], 1, False) \<and>
   \<lparr>src = 2, trgt = 0\<rparr> \<in> set [\<lparr>src = 2, trgt = 0\<rparr>] \<and>
   \<not> residual_edge cycle3 [\<lparr>src = 2, trgt = 0\<rparr>] 2 0 \<and>
   residual_edge cycle3 [\<lparr>src = 2, trgt = 0\<rparr>] 0 1"
proof -
  have i: "graph_inv cycle3" by code_simp
  have v: "vertices_of cycle3 [0, 1, 2]" by code_simp
  have c: "int (length (rows_edges cycle3 [0, 1, 2] (length [0, 1, 2 :: int]) 1)) < 2"
    by code_simp
  have p: "pair_scan cycle3 [0, 1, 2] 2 = Inr (cycle3, [\<lparr>src = 2, trgt = 0\<rparr>], 1, False)"
    by code_simp
  have r: "residual_edge cycle3 [\<lparr>src = 2, trgt = 0\<rparr>] 0 1" by code_simp
  have m: "(0::int) \<in> succs cycle3 2" by code_simp
  from back_edges_leave_order_consistent[OF i v, of 2] obtain g' edge_set calc better_sol_ex
    where t: "pair_scan cycle3 [0, 1, 2] 2 = Inr (g', edge_set, calc, better_sol_ex)"
      "int (length (rows_edges cycle3 [0, 1, 2] (length [0, 1, 2 :: int]) 1)) < 2
         \<longrightarrow> \<not> better_sol_ex"
      "\<not> better_sol_ex \<longrightarrow>
         (\<forall>i j. j < i \<and> i < length [0, 1, 2 :: int] \<and>
                [0, 1, 2] ! j \<in> succs cycle3 ([0, 1, 2] ! i) \<longrightarrow>
                \<lparr>src = [0, 1, 2] ! i, trgt = [0, 1, 2] ! j\<rparr> \<in> set edge_set) \<and>
         (\<forall>i j. j < i \<and> i < length [0, 1, 2 :: int] \<longrightarrow>
                \<not> residual_edge cycle3 edge_set ([0, 1, 2] ! i) ([0, 1, 2] ! j))"
    by blast
  from t(1) p have e: "edge_set = [\<lparr>src = 2, trgt = 0\<rparr>]" by simp
  from t(2) c have nb: "\<not> better_sol_ex" by blast
  from t(3) nb have
    a: "\<forall>i j. j < i \<and> i < length [0, 1, 2 :: int] \<and>
                [0, 1, 2] ! j \<in> succs cycle3 ([0, 1, 2] ! i) \<longrightarrow>
                \<lparr>src = [0, 1, 2] ! i, trgt = [0, 1, 2] ! j\<rparr> \<in> set edge_set"
    and b: "\<forall>i j. j < i \<and> i < length [0, 1, 2 :: int] \<longrightarrow>
                \<not> residual_edge cycle3 edge_set ([0, 1, 2] ! i) ([0, 1, 2] ! j)"
    by blast+
  from a[rule_format, where i = 2 and j = 0] m
  have x: "\<lparr>src = 2, trgt = 0\<rparr> \<in> set [\<lparr>src = 2, trgt = 0\<rparr>]" unfolding e by simp
  from b[rule_format, where i = 2 and j = 0]
  have y: "\<not> residual_edge cycle3 [\<lparr>src = 2, trgt = 0\<rparr>] 2 0" unfolding e by simp
  from i v c p x y r show ?thesis by (intro conjI)
qed

section \<open>Properties of the construction of the graph\<close>

lemma val_in_arr_from_iff:
  "sz \<le> length arr \<Longrightarrow>
   val_in_arr_from i val arr sz \<longleftrightarrow> (\<exists>k. i \<le> k \<and> k < sz \<and> arr ! k = val)"
proof (induction i val arr sz rule: val_in_arr_from.induct)
  case (1 i val arr sz)
  show ?case
  proof (cases "i < sz")
    case False
    then show ?thesis by (auto simp: val_in_arr_from.simps[of i val arr sz])
  next
    case True
    show ?thesis
    proof (cases "arr ! i = val")
      case t: True
      with True show ?thesis by (auto simp: val_in_arr_from.simps[of i val arr sz])
    next
      case f: False
      have "(\<exists>k\<ge>i. k < sz \<and> arr ! k = val) \<longleftrightarrow> (\<exists>k\<ge>i + 1. k < sz \<and> arr ! k = val)"
        using f by (metis Suc_eq_plus1 Suc_leI le_neq_implies_less add_leD1)
      with "1.IH"[OF True f "1.prems"] True f show ?thesis
        by (simp add: val_in_arr_from.simps[of i val arr sz])
    qed
  qed
qed

lemma val_in_arr_mem: "val_in_arr val arr (length arr) \<longleftrightarrow> val \<in> set arr"
  by (auto simp: val_in_arr_def val_in_arr_from_iff in_set_conv_nth)

lemma collect_vertices_set: "set (collect_vertices args m) = set m \<union> labels args"
  by (induction args m rule: collect_vertices.induct)
     (auto simp: labels_def val_in_arr_mem Let_def)

lemma collect_vertices_distinct: "distinct m \<Longrightarrow> distinct (collect_vertices args m)"
  by (induction args m rule: collect_vertices.induct)
     (auto simp: val_in_arr_mem Let_def)

lemma grow_len_pos: "0 < l \<Longrightarrow> \<exists>l'. grow_len dd l = Some l' \<and> 0 < l' \<and> dd < l'"
proof (induction dd l rule: grow_len.induct)
  case (1 dd l)
  show ?case
  proof (cases "dd \<ge> l")
    case False
    with "1.prems" show ?thesis by (simp add: grow_len.simps[of dd l])
  next
    case True
    from "1.prems" have nz: "l \<noteq> 0" by simp
    from "1.IH"[OF True nz] "1.prems" obtain l' where
      "grow_len dd (l * 2) = Some l'" "0 < l'" "dd < l'" by auto
    with True nz show ?thesis by (simp add: grow_len.simps[of dd l])
  qed
qed

lemma graph_create_inv: "0 \<le> n \<Longrightarrow> n < 2 ^ 31 \<Longrightarrow> graph_inv (graph_create n)"
  by (simp add: graph_inv_def graph_create_def succ_inv_def)

lemma graph_add_edge_fails:
  "\<not> (0 \<le> u \<and> u < V g \<and> 0 \<le> v \<and> v < V g) \<Longrightarrow>
   graph_add_edge g u v = Some (Inl AssertionFailed)"
  by (auto simp: graph_add_edge_def)

lemma graph_add_edge_ok:
  assumes "graph_inv g" "0 \<le> u" "u < V g" "0 \<le> v" "v < V g"
  shows "\<exists>g'. graph_add_edge g u v = Some (Inr g') \<and> graph_inv g' \<and> V g' = V g \<and>
              E g' = E g + 1 \<and> succs g' u = insert v (succs g u) \<and>
              (\<forall>w. nat w \<noteq> nat u \<longrightarrow> succs g' w = succs g w)"
proof -
  define s where "s = alist g ! nat u"
  from assms have nu: "nat u < length (alist g)" by (simp add: graph_inv_def)
  with assms(1) have si: "succ_inv (V g) s" by (simp add: graph_inv_def s_def)
  then have "0 < len s" by (simp add: succ_inv_def)
  from grow_len_pos[OF this, of "d s"] obtain l where
    l: "grow_len (d s) (len s) = Some l" "0 < l" by blast
  define s' where "s' = s\<lparr>len := l, list_s := take (d s) (list_s s) @ [v],
                             d := d s + 1, is_sorted := False\<rparr>"
  define g' where "g' = g\<lparr>alist := (alist g)[nat u := s'], E := E g + 1\<rparr>"
  have ga: "graph_add_edge g u v = Some (Inr g')"
    using assms l by (simp add: graph_add_edge_def s_def[symmetric] s'_def g'_def Let_def)
  have si': "succ_inv (V g) s'"
    using si l assms by (auto simp: succ_inv_def s'_def)
  have "graph_inv g'"
    using assms(1) si'
    by (auto simp: graph_inv_def g'_def dest!: set_update_subset_insert[THEN subsetD])
  moreover have "succs g' u = insert v (succs g u)"
    using nu si by (simp add: succs_def g'_def s'_def s_def[symmetric] succ_inv_def)
  moreover have "\<forall>w. nat w \<noteq> nat u \<longrightarrow> succs g' w = succs g w"
    by (simp add: succs_def g'_def)
  moreover have "V g' = V g" "E g' = E g + 1" by (simp_all add: g'_def)
  ultimately show ?thesis using ga by blast
qed

lemma add_edges_ok:
  "graph_inv g \<Longrightarrow> \<forall>x\<in>labels args. 0 \<le> x \<and> x < V g \<Longrightarrow>
   \<exists>g'. add_edges g args = Some (Inr g') \<and> graph_inv g' \<and> V g' = V g \<and>
        E g' = E g + int (length args)"
proof (induction args arbitrary: g)
  case Nil
  then show ?case by simp
next
  case (Cons e args)
  obtain a b where e: "e = (a, b)" by (cases e)
  from Cons.prems(2) e have r: "0 \<le> a" "a < V g" "0 \<le> b" "b < V g"
    by (auto simp: labels_def)
  from graph_add_edge_ok[OF Cons.prems(1) r] obtain g1 where
    g1: "graph_add_edge g a b = Some (Inr g1)" "graph_inv g1" "V g1 = V g" "E g1 = E g + 1"
    by blast
  from Cons.prems(2) g1(3) have "\<forall>x\<in>labels args. 0 \<le> x \<and> x < V g1"
    by (auto simp: labels_def)
  from Cons.IH[OF g1(2) this] obtain g' where
    "add_edges g1 args = Some (Inr g')" "graph_inv g'" "V g' = V g1"
    "E g' = E g1 + int (length args)" by blast
  with g1 e show ?case by simp
qed

lemma add_edges_fails:
  "graph_inv g \<Longrightarrow> \<exists>x\<in>labels args. \<not> (0 \<le> x \<and> x < V g) \<Longrightarrow>
   add_edges g args = Some (Inl AssertionFailed)"
proof (induction args arbitrary: g)
  case Nil
  then show ?case by (simp add: labels_def)
next
  case (Cons e args)
  obtain a b where e: "e = (a, b)" by (cases e)
  show ?case
  proof (cases "0 \<le> a \<and> a < V g \<and> 0 \<le> b \<and> b < V g")
    case False
    from graph_add_edge_fails[OF this] e show ?thesis by simp
  next
    case True
    then have r: "0 \<le> a" "a < V g" "0 \<le> b" "b < V g" by simp_all
    from graph_add_edge_ok[OF Cons.prems(1) r] obtain g1 where
      g1: "graph_add_edge g a b = Some (Inr g1)" "graph_inv g1" "V g1 = V g" by blast
    from Cons.prems(2) True e g1(3) have "\<exists>x\<in>labels args. \<not> (0 \<le> x \<and> x < V g1)"
      by (auto simp: labels_def)
    from Cons.IH[OF g1(2) this] g1 e show ?thesis by simp
  qed
qed

text \<open>
  What the generator hands to its search loop: a graph in the state the graph module
  keeps it in, and a vertex set of distinct vertices of that graph.
\<close>

lemma generator_graph_ready:
  assumes "generator_graph args = Some (Inr (vs, g))" "length vs < 2 ^ 31"
  shows "graph_inv g \<and> vertices_of g vs \<and> distinct vs \<and> V g = int (length vs) \<and>
         set vs = labels args"
proof -
  define k where "k = int (length (collect_vertices args []))"
  from assms(1) have ne: "args \<noteq> []" by (auto simp: generator_graph_def)
  from assms(1) ne have vs: "vs = collect_vertices args []"
    by (auto simp: generator_graph_def Let_def split: option.splits sum.splits if_splits)
  with assms(2) have kb: "0 \<le> k" "k < 2 ^ 31" by (simp_all add: k_def)
  have gi: "graph_inv (graph_create k)" by (rule graph_create_inv[OF kb])
  have vk: "V (graph_create k) = k" by (simp add: graph_create_def)
  from assms(1) ne obtain g' where ae: "add_edges (graph_create k) args = Some (Inr g')" and "g = g'"
    by (auto simp: generator_graph_def Let_def k_def split: option.splits sum.splits if_splits)
  have rng: "\<forall>x\<in>labels args. 0 \<le> x \<and> x < V (graph_create k)"
  proof (rule ccontr)
    assume "\<not> ?thesis"
    then have "\<exists>x\<in>labels args. \<not> (0 \<le> x \<and> x < V (graph_create k))" by blast
    from add_edges_fails[OF gi this] ae show False by simp
  qed
  from add_edges_ok[OF gi rng] ae \<open>g = g'\<close> have "graph_inv g" "V g = k" by (simp_all add: vk)
  moreover have "set vs = labels args" by (simp add: vs collect_vertices_set)
  moreover have "distinct vs" by (simp add: vs collect_vertices_distinct)
  ultimately show ?thesis using rng vk by (simp add: vertices_of_def k_def vs)
qed

section \<open>Claim about the construction of the graph\<close>

text \<open>
  C10. The generator creates the graph with as many vertices as there are distinct labels
  in its arguments, \<open>k\<close>, and \<open>graph_add_edge\<close> asserts that both labels lie in
  \<open>0 .. k - 1\<close>. So arguments in which some label is \<open>k\<close> or more end in an assertion
  failure while the graph is built, and arguments whose labels are exactly \<open>0 .. k - 1\<close>
  pass every \<open>graph_add_edge\<close> and every assertion and yield the graph.
\<close>

theorem generator_needs_dense_labels:
  assumes "args \<noteq> []" and "int (length (collect_vertices args [])) < 2 ^ 31"
  shows "length (collect_vertices args []) = card (labels args) \<and>
         ((\<exists>x\<in>labels args. int (card (labels args)) \<le> x) \<longrightarrow>
            generator_graph args = Some (Inl AssertionFailed)) \<and>
         (labels args = {0..<int (card (labels args))} \<longrightarrow>
            (\<exists>g. generator_graph args = Some (Inr (collect_vertices args [], g)) \<and>
                 V g = int (card (labels args)) \<and> E g = int (length args)))"
proof -
  define k where "k = int (length (collect_vertices args []))"
  have kb: "0 \<le> k" "k < 2 ^ 31" using assms(2) by (simp_all add: k_def)
  have gi: "graph_inv (graph_create k)" by (rule graph_create_inv[OF kb])
  have vk: "V (graph_create k) = k" "E (graph_create k) = 0" by (simp_all add: graph_create_def)
  have "distinct (collect_vertices args [])" by (simp add: collect_vertices_distinct)
  from distinct_card[OF this]
  have card: "length (collect_vertices args []) = card (labels args)"
    by (simp add: collect_vertices_set)
  then have kc: "k = int (card (labels args))" by (simp add: k_def)
  have gg: "generator_graph args =
     (case add_edges (graph_create k) args of
        None \<Rightarrow> None
      | Some (Inl e) \<Rightarrow> Some (Inl e)
      | Some (Inr g') \<Rightarrow>
          if graph_edge_count g' \<noteq> int (length args) then Some (Inl AssertionFailed)
          else Some (Inr (collect_vertices args [], g')))"
    using assms(1) vk
    by (simp add: generator_graph_def Let_def k_def graph_vertex_count_def graph_edge_count_def)
  have bad: "generator_graph args = Some (Inl AssertionFailed)"
    if "\<exists>x\<in>labels args. int (card (labels args)) \<le> x"
  proof -
    from that obtain x where "x \<in> labels args" "k \<le> x" unfolding kc by blast
    then have "\<exists>x\<in>labels args. \<not> (0 \<le> x \<and> x < V (graph_create k))"
      unfolding vk by (intro bexI[of _ x]) simp_all
    from add_edges_fails[OF gi this] show ?thesis by (simp add: gg)
  qed
  have good: "\<exists>g. generator_graph args = Some (Inr (collect_vertices args [], g)) \<and>
                 V g = int (card (labels args)) \<and> E g = int (length args)"
    if "labels args = {0..<int (card (labels args))}"
  proof -
    have "0 \<le> x \<and> x < k" if "x \<in> labels args" for x
    proof -
      from that \<open>labels args = {0..<int (card (labels args))}\<close>
      have "x \<in> {0..<int (card (labels args))}" by simp
      then show ?thesis unfolding kc by simp
    qed
    then have "\<forall>x\<in>labels args. 0 \<le> x \<and> x < V (graph_create k)"
      unfolding vk by blast
    from add_edges_ok[OF gi this] obtain g' where
      ae: "add_edges (graph_create k) args = Some (Inr g')" and "V g' = V (graph_create k)"
        "E g' = E (graph_create k) + int (length args)" by blast
    then have ve: "V g' = k" "E g' = int (length args)" by (simp_all add: vk)
    with ae have "generator_graph args = Some (Inr (collect_vertices args [], g'))"
      by (simp add: gg graph_edge_count_def)
    with ve kc show ?thesis by blast
  qed
  from card bad good show ?thesis by blast
qed

theorem generator_needs_dense_labels_witness:
  "[(0, 5)] \<noteq> ([] :: (int \<times> int) list) \<and> int (length (collect_vertices [(0, 5)] [])) < 2 ^ 31 \<and>
   card (labels [(0, 5)]) = 2 \<and> (5::int) \<in> labels [(0, 5)] \<and>
   generator_graph [(0, 5)] = Some (Inl AssertionFailed) \<and>
   labels [(0, 1), (1, 2), (2, 0)] = {0..<3} \<and>
   (\<exists>g. generator_graph [(0, 1), (1, 2), (2, 0)] = Some (Inr ([0, 1, 2], g)) \<and> V g = 3 \<and> E g = 3)"
proof -
  have n1: "[(0, 5)] \<noteq> ([] :: (int \<times> int) list)" by simp
  have b1: "int (length (collect_vertices [(0, 5)] [])) < 2 ^ 31" by code_simp
  have c1: "card (labels [(0, 5)]) = 2" by (simp add: labels_def)
  have m1: "(5::int) \<in> labels [(0, 5)]" by (simp add: labels_def)
  have "int (card (labels [(0, 5)])) \<le> 5" unfolding c1 by simp
  with m1 have x1: "\<exists>x\<in>labels [(0, 5)]. int (card (labels [(0, 5)])) \<le> x" by (rule bexI[rotated])
  note t1 = generator_needs_dense_labels[OF n1 b1, THEN conjunct2, THEN conjunct1, rule_format, OF x1]
  have n2: "[(0, 1), (1, 2), (2, 0)] \<noteq> ([] :: (int \<times> int) list)" by simp
  have b2: "int (length (collect_vertices [(0, 1), (1, 2), (2, 0)] [])) < 2 ^ 31" by code_simp
  have l2: "labels [(0, 1), (1, 2), (2, 0)] = {0..<3}" by (auto simp: labels_def)
  have c2: "int (card (labels [(0, 1), (1, 2), (2, 0)])) = 3" unfolding l2 by simp
  have v2: "collect_vertices [(0, 1), (1, 2), (2, 0)] [] = [0, 1, 2]" by code_simp
  have h2: "labels [(0, 1), (1, 2), (2, 0)] = {0..<int (card (labels [(0, 1), (1, 2), (2, 0)]))}"
    unfolding c2 by (rule l2)
  note t2 = generator_needs_dense_labels[OF n2 b2, THEN conjunct2, THEN conjunct2, rule_format, OF h2]
  from t2 have r2: "\<exists>g. generator_graph [(0, 1), (1, 2), (2, 0)] = Some (Inr ([0, 1, 2], g)) \<and>
                    V g = 3 \<and> E g = 3"
    unfolding v2 c2 by simp
  from n1 b1 c1 m1 t1 l2 r2 show ?thesis by (intro conjI)
qed

section \<open>Properties of the semaphore calls and of the ring buffer\<close>

lemma find_written_Some: "find_written slots r = Some r' \<Longrightarrow> written (slots ! r')"
  by (erule find_written.raw_induct[rotated]) (auto split: if_splits)

lemma find_unwritten_Some: "find_unwritten slots w = Some w' \<Longrightarrow> \<not> written (slots ! w')"
  by (erule find_unwritten.raw_induct[rotated]) (auto split: if_splits)

text \<open>The publication step never writes the shared best size or the shared flags.\<close>

lemma generator_publish_shared:
  assumes "generator_publish os n st ring_buf fb_size edge_set = Some (gr, ring_buf', n')"
  shows "best_fb_size ring_buf' = best_fb_size ring_buf \<and> quit ring_buf' = quit ring_buf \<and>
         acyclic ring_buf' = acyclic ring_buf"
  using assms
  by (auto simp: generator_publish_def Let_def generator_signal_handler_def
           split: if_splits option.splits prod.splits run.splits)

lemma supervisor_iteration_effect:
  assumes "supervisor_iteration os n st ring_buf = Some (r, ring_buf', out, n')"
  shows "(out = [] \<and> best_fb_size ring_buf' = best_fb_size ring_buf) \<or>
         (out = [Acyclic_line] \<and> best_fb_size ring_buf' = best_fb_size ring_buf \<and>
            acyclic ring_buf' \<and> quit ring_buf' = 1 \<and>
            (\<exists>k. written (sets ring_buf ! k) \<and> num_e (sets ring_buf ! k) = 0)) \<or>
         (\<exists>k. written (sets ring_buf ! k) \<and>
            out = [print_solution (edges (sets ring_buf ! k)) (num_e (sets ring_buf ! k))] \<and>
            num_e (sets ring_buf ! k) \<noteq> 0 \<and>
            num_e (sets ring_buf ! k) < best_fb_size ring_buf \<and>
            best_fb_size ring_buf' = num_e (sets ring_buf ! k))"
proof (cases "find_written (sets ring_buf) (read_from st)")
  case None
  with assms show ?thesis
    by (auto simp: supervisor_iteration_def split: prod.splits run.splits)
next
  case (Some k)
  from find_written_Some[OF Some] have w: "written (sets ring_buf ! k)" .
  from assms Some w show ?thesis
    by (auto simp: supervisor_iteration_def Let_def supervisor_signal_handler_def
             split: prod.splits run.splits if_splits)
qed

lemma supervisor_iteration_mono:
  assumes "supervisor_iteration os n st ring_buf = Some (r, ring_buf', out, n')"
  shows "best_fb_size ring_buf' \<le> best_fb_size ring_buf"
  using supervisor_iteration_effect[OF assms] by auto

lemma shared_step_mono: "shared_step ring_buf ring_buf' \<Longrightarrow> best_fb_size ring_buf' \<le> best_fb_size ring_buf"
proof (induction rule: shared_step.induct)
  case (consumer os n st ring_buf r ring_buf' out n')
  then show ?case by (rule supervisor_iteration_mono)
next
  case (producer os n gst ring_buf fb_size edge_set gr ring_buf' n')
  from generator_publish_shared[OF this] show ?case by simp
qed

lemma shared_steps_mono:
  "shared_step\<^sup>*\<^sup>* ring_buf ring_buf' \<Longrightarrow> best_fb_size ring_buf' \<le> best_fb_size ring_buf"
proof (induction rule: rtranclp_induct)
  case base
  show ?case by simp
next
  case (step y z)
  from shared_step_mono[OF step.hyps(2)] step.IH show ?case by simp
qed

section \<open>Claim about failing semaphore calls\<close>

text \<open>
  C2, as the claim states it, fails: when the first \<open>sem_wait\<close> is interrupted and a
  second one would succeed, \<open>wait_sem\<close> returns to its caller after the one interrupted
  call, without the semaphore.
\<close>

theorem wait_sem_interrupted_not_retried:
  "wait_sem eintr_then_ok 0 = (Return (), 1) \<and> eintr_then_ok 0 = Sem_failed EINTR \<and>
   eintr_then_ok 1 = Sem_ok \<and> \<not> acquired eintr_then_ok 0 1"
  by (simp add: wait_sem_def eintr_then_ok_def acquired_def)

text \<open>
  C2, amended. A failing \<open>sem_wait\<close> makes \<open>wait_sem\<close> exit with failure unless \<open>errno\<close> is
  \<open>EINTR\<close>; then \<open>wait_sem\<close> returns to its caller after that one call, which has not
  acquired the semaphore. A failing \<open>sem_post\<close> always makes \<open>post_sem\<close> exit with failure.
\<close>

theorem semaphore_failure_handling:
  assumes "os n = Sem_failed e"
  shows "wait_sem os n = (if e = EINTR then Return () else Exit EXIT_FAILURE, n + 1) \<and>
         \<not> acquired os n (n + 1) \<and>
         post_sem os n = (Exit EXIT_FAILURE, n + 1)"
  using assms by (simp add: wait_sem_def post_sem_def acquired_def)

theorem semaphore_failure_handling_witness:
  "eintr_then_ok 0 = Sem_failed EINTR \<and> wait_sem eintr_then_ok 0 = (Return (), 1) \<and>
   post_sem eintr_then_ok 0 = (Exit EXIT_FAILURE, 1)"
proof -
  have h: "eintr_then_ok 0 = Sem_failed EINTR" by (simp add: eintr_then_ok_def)
  from semaphore_failure_handling[of eintr_then_ok 0 EINTR, OF h] h show ?thesis by simp
qed

section \<open>Claims about the publication step\<close>




text \<open>
  C3, as the claim states it, fails: a worker with local best 1 publishes a candidate with
  no edge while the shared best size is 0; afterwards its own \<open>quit\<close> is 1 and the shared
  \<open>quit\<close> is still 0, so another worker's loop condition still holds.
\<close>

theorem worker_stop_not_shared:
  "generator_publish all_ok 0 (generator_start 1) (empty_buffer 0) 0 [] =
     Some (Return \<lparr>gen_quit = 1, gen_best_fb_size = 0, write_at = 1\<rparr>,
           (empty_buffer 0)\<lparr>sets := (sets (empty_buffer 0))[0 := make_fb_arc_set [] 0]\<rparr>, 4) \<and>
   quit ((empty_buffer 0)\<lparr>sets := (sets (empty_buffer 0))[0 := make_fb_arc_set [] 0]\<rparr>) = 0 \<and>
   generator_runs (generator_start 1)
     ((empty_buffer 0)\<lparr>sets := (sets (empty_buffer 0))[0 := make_fb_arc_set [] 0]\<rparr>)"
  by code_simp

text \<open>
  C3, amended. Whenever a worker publishes a candidate with no edge and reads the shared
  best size as zero, it calls its own signal handler, which sets the worker's own \<open>quit\<close>
  and nothing else: the worker's loop ends, the shared \<open>quit\<close> and \<open>acyclic\<close> flags are
  as they were, and so is the loop condition of every other worker. The supervisor's
  signal handler is the one that sets the shared \<open>quit\<close>.
\<close>

theorem worker_stop_is_local:
  assumes "generator_publish os n st ring_buf 0 edge_set = Some (Return st', ring_buf', n')"
    and "0 < gen_best_fb_size st" "best_fb_size ring_buf = 0"
  shows "gen_quit st' = 1 \<and> \<not> generator_runs st' ring_buf' \<and>
         quit ring_buf' = quit ring_buf \<and> acyclic ring_buf' = acyclic ring_buf \<and>
         (\<forall>other. generator_runs other ring_buf' = generator_runs other ring_buf) \<and>
         quit (snd (supervisor_signal_handler sst ring_buf)) = 1"
proof -
  from assms have q: "gen_quit st' = 1"
    by (auto simp: generator_publish_def Let_def generator_signal_handler_def
          MAX_VIABLE_COUNT_def split: if_splits option.splits prod.splits run.splits)
  from generator_publish_shared[OF assms(1)]
  have s: "quit ring_buf' = quit ring_buf" "acyclic ring_buf' = acyclic ring_buf" by simp_all
  from q s show ?thesis
    by (simp add: generator_runs_def supervisor_signal_handler_def)
qed

theorem worker_stop_is_local_witness:
  "generator_publish all_ok 0 (generator_start 1) (empty_buffer 0) 0 [] =
     Some (Return \<lparr>gen_quit = 1, gen_best_fb_size = 0, write_at = 1\<rparr>,
           (empty_buffer 0)\<lparr>sets := (sets (empty_buffer 0))[0 := make_fb_arc_set [] 0]\<rparr>, 4) \<and>
   0 < gen_best_fb_size (generator_start 1) \<and> best_fb_size (empty_buffer 0) = 0 \<and>
   quit ((empty_buffer 0)\<lparr>sets := (sets (empty_buffer 0))[0 := make_fb_arc_set [] 0]\<rparr>) =
     quit (empty_buffer 0) \<and>
   quit (snd (supervisor_signal_handler supervisor_start (empty_buffer 0))) = 1"
proof -
  have p: "generator_publish all_ok 0 (generator_start 1) (empty_buffer 0) 0 [] =
     Some (Return \<lparr>gen_quit = 1, gen_best_fb_size = 0, write_at = 1\<rparr>,
           (empty_buffer 0)\<lparr>sets := (sets (empty_buffer 0))[0 := make_fb_arc_set [] 0]\<rparr>, 4)"
    by code_simp
  have h2: "0 < gen_best_fb_size (generator_start 1)" by (simp add: generator_start_def)
  have h3: "best_fb_size (empty_buffer 0) = 0" by (simp add: empty_buffer_def)
  note t = worker_stop_is_local[OF p h2 h3, of supervisor_start]
  from t have a: "quit ((empty_buffer 0)\<lparr>sets := (sets (empty_buffer 0))[0 := make_fb_arc_set [] 0]\<rparr>) =
     quit (empty_buffer 0)" by (elim conjE)
  from t have b: "quit (snd (supervisor_signal_handler supervisor_start (empty_buffer 0))) = 1"
    by (elim conjE)
  from p h2 h3 a b show ?thesis by (intro conjI)
qed

text \<open>
  With the cursor inside the ring and some slot of the ring written, the supervisor's
  cursor loop ends, at a written slot of the ring.
\<close>

lemma find_written_ends_aux:
  "r < BUF_SIZE \<Longrightarrow> written (slots ! ((r + m) mod BUF_SIZE)) \<Longrightarrow>
   \<exists>k. find_written slots r = Some k \<and> k < BUF_SIZE \<and> written (slots ! k)"
proof (induction m arbitrary: r)
  case 0
  then show ?case by (subst find_written.simps) simp
next
  case (Suc m)
  show ?case
  proof (cases "written (slots ! r)")
    case True
    with Suc.prems(1) show ?thesis by (subst find_written.simps) simp
  next
    case False
    have lt: "(r + 1) mod BUF_SIZE < BUF_SIZE" by (simp add: BUF_SIZE_def)
    have "((r + 1) mod BUF_SIZE + m) mod BUF_SIZE = (r + Suc m) mod BUF_SIZE"
      by (simp add: mod_add_left_eq)
    with Suc.prems(2) have "written (slots ! (((r + 1) mod BUF_SIZE + m) mod BUF_SIZE))" by simp
    from Suc.IH[OF lt this] obtain k where
      "find_written slots ((r + 1) mod BUF_SIZE) = Some k" "k < BUF_SIZE" "written (slots ! k)"
      by blast
    with False show ?thesis by (subst find_written.simps) simp
  qed
qed

lemma find_written_ends:
  assumes "r < BUF_SIZE" "j < BUF_SIZE" "written (slots ! j)"
  shows "\<exists>k. find_written slots r = Some k \<and> k < BUF_SIZE \<and> written (slots ! k)"
proof -
  have "(r + (j + BUF_SIZE - r)) mod BUF_SIZE = j" using assms(1,2) by simp
  with assms(3) have "written (slots ! ((r + (j + BUF_SIZE - r)) mod BUF_SIZE))" by simp
  from find_written_ends_aux[OF assms(1) this] show ?thesis .
qed

text \<open>What an iteration of the supervisor does with the slot its cursor loop stops at.\<close>

lemma supervisor_iteration_drains:
  assumes "\<forall>j\<in>{n..<n + 4}. os j = Sem_ok"
    and "find_written (sets ring_buf) (read_from st) = Some k"
  shows "supervisor_iteration os n st ring_buf =
     (let fb = sets ring_buf ! k;
          slots' = (sets ring_buf)[k := fb\<lparr>written := False\<rparr>];
          st' = st\<lparr>read_from := (k + 1) mod BUF_SIZE\<rparr>
      in if num_e fb = 0 then
           Some (Return (st'\<lparr>sup_quit := 1\<rparr>),
                 ring_buf\<lparr>sets := slots', acyclic := True, quit := 1\<rparr>, [Acyclic_line], n + 4)
         else if num_e fb < best_fb_size ring_buf then
           Some (Return st', ring_buf\<lparr>sets := slots', best_fb_size := num_e fb\<rparr>,
                 [print_solution (edges fb) (num_e fb)], n + 4)
         else Some (Return st', ring_buf\<lparr>sets := slots'\<rparr>, [], n + 4))"
proof -
  from assms(1) have ok: "os n = Sem_ok" "os (Suc n) = Sem_ok" "os (Suc (Suc n)) = Sem_ok"
    "os (Suc (Suc (Suc n))) = Sem_ok" by simp_all
  with assms(2) show ?thesis
    by (simp add: supervisor_iteration_def Let_def getval_sem_def wait_sem_def post_sem_def
          supervisor_signal_handler_def)
qed

section \<open>Claim about the shared best size\<close>

text \<open>
  C8. The supervisor sets the shared best size to \<open>INT16_MAX\<close> before its loop. After
  that the value never grows, whatever steps the supervisor and the generators take on
  the ring buffer: a generator's publication step leaves it as it is, and an iteration of
  the supervisor either leaves it as it is or lowers it to the size of the candidate it
  has drained. The supervisor prints a solution only for a drained candidate that has an
  edge and fewer edges than the shared best size, which then becomes that number.
  Whenever a slot of the ring is written, the cursor is inside the ring and the semaphore
  calls succeed, the iteration returns having drained a written slot: for a candidate
  without edges it prints that the graph is acyclic and no edges, sets the shared
  \<open>acyclic\<close> and \<open>quit\<close> flags and its own \<open>quit\<close>, and leaves the shared best size as
  it is; for a candidate with edges and fewer than the shared best size it prints the
  solution and lowers the shared best size to that number; for any other candidate it
  prints nothing and leaves the shared best size as it is.
\<close>

theorem best_fb_size_only_decreases:
  "best_fb_size (supervisor_init ring_buf0) = INT16_MAX \<and>
   (shared_step\<^sup>*\<^sup>* ring_buf ring_buf' \<longrightarrow> best_fb_size ring_buf' \<le> best_fb_size ring_buf) \<and>
   (generator_publish os n gst ring_buf fb_size edge_set = Some (gr, ring_buf1, n1) \<longrightarrow>
      best_fb_size ring_buf1 = best_fb_size ring_buf) \<and>
   (supervisor_iteration os n st ring_buf = Some (r, ring_buf2, out, n2) \<longrightarrow>
      (out = [] \<and> best_fb_size ring_buf2 = best_fb_size ring_buf) \<or>
      (out = [Acyclic_line] \<and> best_fb_size ring_buf2 = best_fb_size ring_buf \<and>
         acyclic ring_buf2 \<and> quit ring_buf2 = 1 \<and>
         (\<exists>k. written (sets ring_buf ! k) \<and> num_e (sets ring_buf ! k) = 0)) \<or>
      (\<exists>k. written (sets ring_buf ! k) \<and>
         out = [print_solution (edges (sets ring_buf ! k)) (num_e (sets ring_buf ! k))] \<and>
         num_e (sets ring_buf ! k) \<noteq> 0 \<and>
         num_e (sets ring_buf ! k) < best_fb_size ring_buf \<and>
         best_fb_size ring_buf2 = num_e (sets ring_buf ! k))) \<and>
   ((\<forall>j\<in>{n..<n + 4}. os j = Sem_ok) \<and> read_from st < BUF_SIZE \<and>
    i < BUF_SIZE \<and> written (sets ring_buf ! i) \<longrightarrow>
      (\<exists>k st3 ring_buf3 out3.
         find_written (sets ring_buf) (read_from st) = Some k \<and> k < BUF_SIZE \<and>
         written (sets ring_buf ! k) \<and>
         supervisor_iteration os n st ring_buf = Some (Return st3, ring_buf3, out3, n + 4) \<and>
         (num_e (sets ring_buf ! k) = 0 \<longrightarrow>
            out3 = [Acyclic_line] \<and> acyclic ring_buf3 \<and> quit ring_buf3 = 1 \<and>
            sup_quit st3 = 1 \<and> best_fb_size ring_buf3 = best_fb_size ring_buf) \<and>
         (num_e (sets ring_buf ! k) \<noteq> 0 \<and> num_e (sets ring_buf ! k) < best_fb_size ring_buf \<longrightarrow>
            out3 = [print_solution (edges (sets ring_buf ! k)) (num_e (sets ring_buf ! k))] \<and>
            best_fb_size ring_buf3 = num_e (sets ring_buf ! k)) \<and>
         (num_e (sets ring_buf ! k) \<noteq> 0 \<and>
          \<not> num_e (sets ring_buf ! k) < best_fb_size ring_buf \<longrightarrow>
            out3 = [] \<and> best_fb_size ring_buf3 = best_fb_size ring_buf)))"
proof (intro conjI impI)
  show "best_fb_size (supervisor_init ring_buf0) = INT16_MAX"
    by (simp add: supervisor_init_def)
next
  assume "shared_step\<^sup>*\<^sup>* ring_buf ring_buf'"
  then show "best_fb_size ring_buf' \<le> best_fb_size ring_buf" by (rule shared_steps_mono)
next
  assume "generator_publish os n gst ring_buf fb_size edge_set = Some (gr, ring_buf1, n1)"
  from generator_publish_shared[OF this] show "best_fb_size ring_buf1 = best_fb_size ring_buf"
    by simp
next
  assume "supervisor_iteration os n st ring_buf = Some (r, ring_buf2, out, n2)"
  then show "(out = [] \<and> best_fb_size ring_buf2 = best_fb_size ring_buf) \<or>
      (out = [Acyclic_line] \<and> best_fb_size ring_buf2 = best_fb_size ring_buf \<and>
         acyclic ring_buf2 \<and> quit ring_buf2 = 1 \<and>
         (\<exists>k. written (sets ring_buf ! k) \<and> num_e (sets ring_buf ! k) = 0)) \<or>
      (\<exists>k. written (sets ring_buf ! k) \<and>
         out = [print_solution (edges (sets ring_buf ! k)) (num_e (sets ring_buf ! k))] \<and>
         num_e (sets ring_buf ! k) \<noteq> 0 \<and>
         num_e (sets ring_buf ! k) < best_fb_size ring_buf \<and>
         best_fb_size ring_buf2 = num_e (sets ring_buf ! k))"
    by (rule supervisor_iteration_effect)
next
  assume a: "(\<forall>j\<in>{n..<n + 4}. os j = Sem_ok) \<and> read_from st < BUF_SIZE \<and>
    i < BUF_SIZE \<and> written (sets ring_buf ! i)"
  then have ok: "\<forall>j\<in>{n..<n + 4}. os j = Sem_ok" and rf: "read_from st < BUF_SIZE"
    and ib: "i < BUF_SIZE" and wi: "written (sets ring_buf ! i)" by simp_all
  from find_written_ends[OF rf ib wi] obtain k where
    k: "find_written (sets ring_buf) (read_from st) = Some k" "k < BUF_SIZE"
      "written (sets ring_buf ! k)" by blast
  note it = supervisor_iteration_drains[OF ok k(1)]
  define fb where "fb = sets ring_buf ! k"
  define slots' where "slots' = (sets ring_buf)[k := fb\<lparr>written := False\<rparr>]"
  define st' where "st' = st\<lparr>read_from := (k + 1) mod BUF_SIZE\<rparr>"
  consider "num_e fb = 0" | "num_e fb \<noteq> 0" "num_e fb < best_fb_size ring_buf"
    | "num_e fb \<noteq> 0" "\<not> num_e fb < best_fb_size ring_buf" by blast
  then show "\<exists>k st3 ring_buf3 out3.
         find_written (sets ring_buf) (read_from st) = Some k \<and> k < BUF_SIZE \<and>
         written (sets ring_buf ! k) \<and>
         supervisor_iteration os n st ring_buf = Some (Return st3, ring_buf3, out3, n + 4) \<and>
         (num_e (sets ring_buf ! k) = 0 \<longrightarrow>
            out3 = [Acyclic_line] \<and> acyclic ring_buf3 \<and> quit ring_buf3 = 1 \<and>
            sup_quit st3 = 1 \<and> best_fb_size ring_buf3 = best_fb_size ring_buf) \<and>
         (num_e (sets ring_buf ! k) \<noteq> 0 \<and> num_e (sets ring_buf ! k) < best_fb_size ring_buf \<longrightarrow>
            out3 = [print_solution (edges (sets ring_buf ! k)) (num_e (sets ring_buf ! k))] \<and>
            best_fb_size ring_buf3 = num_e (sets ring_buf ! k)) \<and>
         (num_e (sets ring_buf ! k) \<noteq> 0 \<and>
          \<not> num_e (sets ring_buf ! k) < best_fb_size ring_buf \<longrightarrow>
            out3 = [] \<and> best_fb_size ring_buf3 = best_fb_size ring_buf)"
  proof cases
    case 1
    with it have "supervisor_iteration os n st ring_buf =
        Some (Return (st'\<lparr>sup_quit := 1\<rparr>),
              ring_buf\<lparr>sets := slots', acyclic := True, quit := 1\<rparr>, [Acyclic_line], n + 4)"
      by (simp add: Let_def fb_def slots'_def st'_def)
    with k 1 show ?thesis
      by (intro exI[of _ k] exI[of _ "st'\<lparr>sup_quit := 1\<rparr>"]
            exI[of _ "ring_buf\<lparr>sets := slots', acyclic := True, quit := 1\<rparr>"]
            exI[of _ "[Acyclic_line]"]) (simp add: fb_def)
  next
    case 2
    with it have "supervisor_iteration os n st ring_buf =
        Some (Return st', ring_buf\<lparr>sets := slots', best_fb_size := num_e fb\<rparr>,
              [print_solution (edges fb) (num_e fb)], n + 4)"
      by (simp add: Let_def fb_def slots'_def st'_def)
    with k 2 show ?thesis
      by (intro exI[of _ k] exI[of _ st']
            exI[of _ "ring_buf\<lparr>sets := slots', best_fb_size := num_e fb\<rparr>"]
            exI[of _ "[print_solution (edges fb) (num_e fb)]"]) (simp add: fb_def)
  next
    case 3
    with it have "supervisor_iteration os n st ring_buf =
        Some (Return st', ring_buf\<lparr>sets := slots'\<rparr>, [], n + 4)"
      by (simp add: Let_def fb_def slots'_def st'_def)
    with k 3 show ?thesis
      by (intro exI[of _ k] exI[of _ st'] exI[of _ "ring_buf\<lparr>sets := slots'\<rparr>"]
            exI[of _ "[]"]) (simp add: fb_def)
  qed
qed

theorem best_fb_size_only_decreases_witness:
  "best_fb_size initial_buffer = INT16_MAX \<and>
   generator_publish all_ok 0 (generator_start 2) initial_buffer 1 [\<lparr>src = 2, trgt = 0\<rparr>] =
     Some (Return \<lparr>gen_quit = 0, gen_best_fb_size = 1, write_at = 1\<rparr>, published_buffer, 4) \<and>
   best_fb_size published_buffer = best_fb_size initial_buffer \<and>
   supervisor_iteration all_ok 0 supervisor_start published_buffer =
     Some (Return \<lparr>sup_quit = 0, read_from = 1\<rparr>, drained_buffer,
           [Solution_line 1 [\<lparr>src = 2, trgt = 0\<rparr>]], 4) \<and>
   shared_step\<^sup>*\<^sup>* initial_buffer drained_buffer \<and>
   best_fb_size drained_buffer \<le> best_fb_size initial_buffer \<and>
   best_fb_size drained_buffer = 1 \<and>
   (\<exists>k. written (sets published_buffer ! k) \<and>
      num_e (sets published_buffer ! k) < best_fb_size published_buffer \<and>
      best_fb_size drained_buffer = num_e (sets published_buffer ! k)) \<and>
   generator_publish all_ok 0 (generator_start 1) initial_buffer 0 [] =
     Some (Return \<lparr>gen_quit = 0, gen_best_fb_size = 0, write_at = 1\<rparr>,
           acyclic_published_buffer, 4) \<and>
   all_ok 0 = Sem_ok \<and> all_ok 1 = Sem_ok \<and> all_ok 2 = Sem_ok \<and> all_ok 3 = Sem_ok \<and>
   read_from supervisor_start < BUF_SIZE \<and>
   0 < BUF_SIZE \<and> written (sets acyclic_published_buffer ! 0) \<and>
   num_e (sets acyclic_published_buffer ! 0) = 0 \<and>
   supervisor_iteration all_ok 0 supervisor_start acyclic_published_buffer =
     Some (Return \<lparr>sup_quit = 1, read_from = 1\<rparr>, acyclic_drained_buffer, [Acyclic_line], 4) \<and>
   (\<exists>st3 ring_buf3.
      supervisor_iteration all_ok 0 supervisor_start acyclic_published_buffer =
        Some (Return st3, ring_buf3, [Acyclic_line], 0 + 4) \<and>
      acyclic ring_buf3 \<and> quit ring_buf3 = 1 \<and> sup_quit st3 = 1 \<and>
      best_fb_size ring_buf3 = best_fb_size acyclic_published_buffer)"
proof -
  have p: "generator_publish all_ok 0 (generator_start 2) initial_buffer 1 [\<lparr>src = 2, trgt = 0\<rparr>] =
     Some (Return \<lparr>gen_quit = 0, gen_best_fb_size = 1, write_at = 1\<rparr>, published_buffer, 4)"
    by code_simp
  have s: "supervisor_iteration all_ok 0 supervisor_start published_buffer =
     Some (Return \<lparr>sup_quit = 0, read_from = 1\<rparr>, drained_buffer,
           [Solution_line 1 [\<lparr>src = 2, trgt = 0\<rparr>]], 4)"
    by code_simp
  have st: "shared_step\<^sup>*\<^sup>* initial_buffer drained_buffer"
    using shared_step.producer[OF p] shared_step.consumer[OF s] by simp
  have d: "best_fb_size drained_buffer = 1" by (simp add: drained_buffer_def)
  have i: "best_fb_size initial_buffer = INT16_MAX"
    unfolding initial_buffer_def
    by (rule best_fb_size_only_decreases[THEN conjunct1])
  have m: "best_fb_size drained_buffer \<le> best_fb_size initial_buffer"
    by (rule best_fb_size_only_decreases[THEN conjunct2, THEN conjunct1, rule_format, OF st])
  have g: "best_fb_size published_buffer = best_fb_size initial_buffer"
    by (rule best_fb_size_only_decreases[THEN conjunct2, THEN conjunct2, THEN conjunct1,
          rule_format, OF p])
  note e = best_fb_size_only_decreases[THEN conjunct2, THEN conjunct2, THEN conjunct2,
      THEN conjunct1, rule_format, OF s]
  from e have x: "\<exists>k. written (sets published_buffer ! k) \<and>
      num_e (sets published_buffer ! k) < best_fb_size published_buffer \<and>
      best_fb_size drained_buffer = num_e (sets published_buffer ! k)"
    by auto
  have zp: "generator_publish all_ok 0 (generator_start 1) initial_buffer 0 [] =
     Some (Return \<lparr>gen_quit = 0, gen_best_fb_size = 0, write_at = 1\<rparr>,
           acyclic_published_buffer, 4)"
    by code_simp
  have zs: "supervisor_iteration all_ok 0 supervisor_start acyclic_published_buffer =
     Some (Return \<lparr>sup_quit = 1, read_from = 1\<rparr>, acyclic_drained_buffer, [Acyclic_line], 4)"
    by code_simp
  have h1: "\<forall>j\<in>{0..<0 + 4}. all_ok j = Sem_ok" by (simp add: all_ok_def)
  have h2: "read_from supervisor_start < BUF_SIZE" by (simp add: supervisor_start_def BUF_SIZE_def)
  have h3: "0 < BUF_SIZE" by (simp add: BUF_SIZE_def)
  have h4: "written (sets acyclic_published_buffer ! 0)" by code_simp
  have z0: "num_e (sets acyclic_published_buffer ! 0) = 0" by code_simp
  have fw: "find_written (sets acyclic_published_buffer) (read_from supervisor_start) = Some 0"
    by code_simp
  from best_fb_size_only_decreases[THEN conjunct2, THEN conjunct2, THEN conjunct2,
      THEN conjunct2, rule_format, OF conjI[OF h1 conjI[OF h2 conjI[OF h3 h4]]]]
  obtain k st3 ring_buf3 out3 where
    k: "find_written (sets acyclic_published_buffer) (read_from supervisor_start) = Some k"
    and it: "supervisor_iteration all_ok 0 supervisor_start acyclic_published_buffer =
        Some (Return st3, ring_buf3, out3, 0 + 4)"
    and z: "num_e (sets acyclic_published_buffer ! k) = 0 \<longrightarrow>
        out3 = [Acyclic_line] \<and> acyclic ring_buf3 \<and> quit ring_buf3 = 1 \<and>
        sup_quit st3 = 1 \<and> best_fb_size ring_buf3 = best_fb_size acyclic_published_buffer"
    by blast
  from k fw have "k = 0" by simp
  with z z0 have zz: "out3 = [Acyclic_line] \<and> acyclic ring_buf3 \<and> quit ring_buf3 = 1 \<and>
        sup_quit st3 = 1 \<and> best_fb_size ring_buf3 = best_fb_size acyclic_published_buffer"
    by simp
  with it have y: "\<exists>st3 ring_buf3.
      supervisor_iteration all_ok 0 supervisor_start acyclic_published_buffer =
        Some (Return st3, ring_buf3, [Acyclic_line], 0 + 4) \<and>
      acyclic ring_buf3 \<and> quit ring_buf3 = 1 \<and> sup_quit st3 = 1 \<and>
      best_fb_size ring_buf3 = best_fb_size acyclic_published_buffer"
    by blast
  have o: "all_ok 0 = Sem_ok" "all_ok 1 = Sem_ok" "all_ok 2 = Sem_ok" "all_ok 3 = Sem_ok"
    by (simp_all add: all_ok_def)
  from i p g s st m d x zp o h2 h3 h4 z0 zs y show ?thesis by (intro conjI)
qed

section \<open>Properties of the layout of the shared memory\<close>

lemma align_up_ge: "0 < al \<Longrightarrow> off \<le> align_up al off"
proof -
  assume a: "0 < al"
  have "(off + al - 1) div al * al = (off + al - 1) - (off + al - 1) mod al"
    by (simp add: minus_mod_eq_div_mult)
  moreover have "(off + al - 1) mod al \<le> al - 1" using a
    by (metis Suc_pred' less_Suc_eq_le mod_less_divisor)
  ultimately show ?thesis using a by (simp add: align_up_def)
qed

lemma align_up_dvd: "al dvd align_up al off"
  by (simp add: align_up_def)

lemma align_up_ge_al: "0 < al \<Longrightarrow> 0 < off \<Longrightarrow> al \<le> align_up al off"
proof -
  assume a: "0 < al" "0 < off"
  from align_up_ge[OF a(1), of off] a(2) have "0 < align_up al off" by simp
  with align_up_dvd[of al off] show ?thesis by (rule dvd_imp_le)
qed

lemma sizeof_Edge_ge: "abi_ok a \<Longrightarrow> 2 * int_size a \<le> sizeof_Edge a"
proof -
  assume ok: "abi_ok a"
  then have ia: "0 < int_align a" by (simp add: abi_ok_def)
  have "int_size a \<le> offsetof_trgt a" unfolding offsetof_trgt_def by (rule align_up_ge[OF ia])
  moreover have "offsetof_trgt a + int_size a \<le> sizeof_Edge a"
    unfolding sizeof_Edge_def by (rule align_up_ge[OF ia])
  ultimately show ?thesis by simp
qed

lemma sizeof_Fb_arc_set_ge: "abi_ok a \<Longrightarrow> 16 * int_size a \<le> sizeof_Fb_arc_set a"
proof -
  assume ok: "abi_ok a"
  then have al: "0 < alignof_Fb_arc_set a" by (auto simp: abi_ok_def alignof_Fb_arc_set_def max_def)
  have "offsetof_edges a + nat MAX_VIABLE_COUNT * sizeof_Edge a \<le> sizeof_Fb_arc_set a"
    unfolding sizeof_Fb_arc_set_def by (rule align_up_ge[OF al])
  with sizeof_Edge_ge[OF ok] show ?thesis by (simp add: MAX_VIABLE_COUNT_def)
qed

lemma sizeof_Buffer_ge: "abi_ok a \<Longrightarrow> 128 * int_size a \<le> sizeof_Buffer a"
proof -
  assume ok: "abi_ok a"
  then have al: "0 < alignof_Buffer a" by (auto simp: abi_ok_def alignof_Buffer_def max_def)
  have "offsetof_sets a + BUF_SIZE * sizeof_Fb_arc_set a \<le> sizeof_Buffer a"
    unfolding sizeof_Buffer_def by (rule align_up_ge[OF al])
  with sizeof_Fb_arc_set_ge[OF ok] show ?thesis by (simp add: BUF_SIZE_def)
qed

lemma offsetof_sets_ge:
  assumes "abi_ok a" "4 \<le> int_size a" "4 \<le> int_align a"
  shows "8 \<le> offsetof_sets a"
proof -
  from assms(1) have p: "0 < int_align a" "0 < sig_atomic_align a" "0 < bool_size a"
    "0 < alignof_Fb_arc_set a" by (auto simp: abi_ok_def alignof_Fb_arc_set_def max_def)
  have "0 < offsetof_quit a + sig_atomic_size a" using assms(1) by (simp add: abi_ok_def)
  from align_up_ge_al[OF p(1) this] have "int_align a \<le> offsetof_best_fb_size a"
    by (simp add: offsetof_best_fb_size_def)
  with assms(3) have "4 \<le> offsetof_best_fb_size a" by simp
  moreover have "offsetof_best_fb_size a + int_size a \<le> offsetof_sets a"
    unfolding offsetof_sets_def by (rule align_up_ge[OF p(4)])
  ultimately show ?thesis using assms(2) by simp
qed


section \<open>Claim about the size of the shared memory object\<close>

text \<open>
  C9. For every ABI, when the supervisor's set-up of the shared memory succeeds, the
  object has been truncated to \<open>BUF_SIZE\<close>, that is 8, bytes and \<open>sizeof(Buffer)\<close> bytes
  of it are mapped, and a generator maps \<open>sizeof(Buffer)\<close> bytes as well. The two sizes
  differ in every run: \<open>Buffer\<close> holds 128 \<open>int\<close>s in its slots alone, so the slot array
  ends beyond the 8 bytes of the object. With an \<open>int\<close> of four bytes or more, aligned to
  four bytes or more, the slot array starts at byte 8 or later, so all of it lies beyond
  the 8 bytes of the object.
\<close>

theorem shm_truncated_below_buffer:
  assumes "abi_ok a"
  shows "(supervisor_shm a r1 r2 r3 named = Return (obj, mapped) \<longrightarrow>
            obj = BUF_SIZE \<and> mapped = sizeof_Buffer a \<and> obj < mapped) \<and>
         (generator_shm a q1 q2 gnamed = Return (gobj, gmapped) \<longrightarrow> gmapped = sizeof_Buffer a) \<and>
         BUF_SIZE \<noteq> sizeof_Buffer a \<and>
         BUF_SIZE < offsetof_sets a + BUF_SIZE * sizeof_Fb_arc_set a \<and>
         (4 \<le> int_size a \<and> 4 \<le> int_align a \<longrightarrow> BUF_SIZE \<le> offsetof_sets a)"
proof -
  from assms have "0 < int_size a" by (simp add: abi_ok_def)
  with sizeof_Buffer_ge[OF assms] have lt: "BUF_SIZE < sizeof_Buffer a"
    by (simp add: BUF_SIZE_def)
  have s: "obj = BUF_SIZE \<and> mapped = sizeof_Buffer a \<and> obj < mapped"
    if "supervisor_shm a r1 r2 r3 named = Return (obj, mapped)"
    using that lt
    by (auto simp: supervisor_shm_def create_shm_def truncate_shm_def open_shm_def
             split: sys_ret.splits option.splits)
  have g: "gmapped = sizeof_Buffer a"
    if "generator_shm a q1 q2 gnamed = Return (gobj, gmapped)"
    using that
    by (auto simp: generator_shm_def create_shm_def open_shm_def
             split: sys_ret.splits option.splits)
  have o: "BUF_SIZE \<le> offsetof_sets a" if "4 \<le> int_size a \<and> 4 \<le> int_align a"
    using offsetof_sets_ge[OF assms] that by (simp add: BUF_SIZE_def)
  have e: "BUF_SIZE < offsetof_sets a + BUF_SIZE * sizeof_Fb_arc_set a"
    using sizeof_Fb_arc_set_ge[OF assms] \<open>0 < int_size a\<close> by (simp add: BUF_SIZE_def)
  from s g o lt e show ?thesis by auto
qed

theorem shm_truncated_below_buffer_witness:
  "abi_ok posix_abi \<and> supervisor_shm posix_abi Sys_ok Sys_ok Sys_ok None = Return (8, 588) \<and>
   generator_shm posix_abi Sys_ok Sys_ok (Some 8) = Return (8, 588) \<and>
   sizeof_Buffer posix_abi = 588 \<and> BUF_SIZE \<noteq> sizeof_Buffer posix_abi \<and>
   4 \<le> int_size posix_abi \<and> 4 \<le> int_align posix_abi \<and> offsetof_sets posix_abi = 12 \<and>
   BUF_SIZE \<le> offsetof_sets posix_abi"
proof -
  have ok: "abi_ok posix_abi" by (simp add: abi_ok_def posix_abi_def)
  have s: "supervisor_shm posix_abi Sys_ok Sys_ok Sys_ok None = Return (8, 588)" by code_simp
  have g: "generator_shm posix_abi Sys_ok Sys_ok (Some 8) = Return (8, 588)" by code_simp
  have f: "4 \<le> int_size posix_abi \<and> 4 \<le> int_align posix_abi" by (simp add: posix_abi_def)
  have o: "offsetof_sets posix_abi = 12" by code_simp
  note t = shm_truncated_below_buffer[OF ok, where ?r1.0 = Sys_ok and ?r2.0 = Sys_ok
      and ?r3.0 = Sys_ok and named = None and obj = 8 and mapped = 588
      and ?q1.0 = Sys_ok and ?q2.0 = Sys_ok and gnamed = "Some 8" and gobj = 8 and gmapped = 588]
  note t1 = t[THEN conjunct1, rule_format, OF s]
  note t2 = t[THEN conjunct2, THEN conjunct1, rule_format, OF g]
  note t3 = t[THEN conjunct2, THEN conjunct2, THEN conjunct1]
  note t4 = t[THEN conjunct2, THEN conjunct2, THEN conjunct2, THEN conjunct2, rule_format, OF f]
  from ok s g t2[symmetric] t3 f o t4 show ?thesis by (intro conjI) simp_all
qed

end
